theory Spec2Isabelle
  imports Complex_Main "HOL-Library.Word"
begin

section \<open>Data model\<close>

text \<open>
  The preprocessor works on a slice of pointers to \<^verbatim>\<open>activity.Record\<close>. The slice is
  modelled as a list of record values and a pointer as the index of its record in
  that list (the pointers of a slice are taken to be non-nil and pairwise distinct).
  A nil-able field \<^verbatim>\<open>*T\<close> is an \<open>option\<close>.

  \<^verbatim>\<open>float64\<close> values are modelled by the real numbers that they denote; there is no
  NaN and no infinity. A quotient whose divisor is zero (an infinity or NaN in Go) is
  outside the model; the theorems about a quotient establish or assume that its
  divisor is not zero. \<open>CalculateGrade\<close> and \<open>CalculatePace\<close> are modelled with the
  arithmetic of \<^verbatim>\<open>float64\<close>, every operation rounded to the nearest double (section
  "The arithmetic of float64"); the other stages are modelled with exact arithmetic.

  \<^verbatim>\<open>time.Time\<close> is modelled by the instant it denotes, as the number of nanoseconds
  since the zero time (January 1, year 1, 00:00:00 UTC), and \<^verbatim>\<open>time.Duration\<close> by
  its count of nanoseconds (an int64).
\<close>

type_synonym Time = int
type_synonym Duration = int

definition Equal :: "Time \<Rightarrow> Time \<Rightarrow> bool" where
  "Equal t u = (t = u)"

definition IsZero :: "Time \<Rightarrow> bool" where
  "IsZero t = (t = 0)"

definition minDuration :: Duration where
  "minDuration = - (2 ^ 63)"

definition maxDuration :: Duration where
  "maxDuration = 2 ^ 63 - 1"

text \<open>\<^verbatim>\<open>t.Sub(u)\<close> is the duration \<open>t - u\<close>, saturated to the range of an int64.\<close>

definition Sub :: "Time \<Rightarrow> Time \<Rightarrow> Duration" where
  "Sub t u =
     (let d = t - u in
      if d < minDuration then minDuration
      else if d > maxDuration then maxDuration
      else d)"

definition Seconds :: "Duration \<Rightarrow> real" where
  "Seconds d = real_of_int d / 1000000000"

section \<open>The arithmetic of float64\<close>

text \<open>
  An operation of \<^verbatim>\<open>float64\<close> (IEEE 754 binary64, rounding to nearest, ties to even)
  yields the exact result rounded to the nearest number \<open>m * 2 ^ e\<close> with
  \<open>\<bar>m\<bar> \<le> 2 ^ 53\<close> and \<open>e \<ge> - 1074\<close>; of two nearest ones, the one with even \<open>m\<close>.
  A result beyond the largest double (an infinity in Go) is outside the model.

  \<open>bit_length n\<close> is the number of binary digits of \<open>n > 0\<close>, and \<open>float_exponent x\<close> the
  integer \<open>k\<close> with \<open>2 ^ k \<le> \<bar>x\<bar> < 2 ^ (k + 1)\<close>, for \<open>x\<close> other than 0.
\<close>

function bit_length :: "int \<Rightarrow> int" where
  "bit_length n = (if n \<le> 0 then 0 else bit_length (n div 2) + 1)"
  by pat_completeness auto
termination
  by (relation "measure nat") auto

declare bit_length.simps [simp del]

definition float_exponent :: "real \<Rightarrow> int" where
  "float_exponent x =
     (if \<bar>x\<bar> \<ge> 1 then bit_length \<lfloor>\<bar>x\<bar>\<rfloor> - 1
      else - bit_length (\<lceil>1 / \<bar>x\<bar>\<rceil> - 1))"

definition pow2 :: "int \<Rightarrow> real" where
  "pow2 e = (if e \<ge> 0 then 2 ^ nat e else 1 / 2 ^ nat (- e))"

text \<open>The nearest integer; of two nearest ones, the even one.\<close>

definition round_even :: "real \<Rightarrow> int" where
  "round_even q =
     (let f = \<lfloor>q\<rfloor>; r = q - of_int f in
      if r < 1 / 2 then f
      else if r > 1 / 2 then f + 1
      else if even f then f else f + 1)"

text \<open>
  The nearest double. The unit in the last place of \<open>x\<close> is \<open>2 ^ (float_exponent x - 52)\<close>,
  and \<open>2 ^ (- 1074)\<close> for the subnormal numbers.
\<close>

definition round64 :: "real \<Rightarrow> real" where
  "round64 x =
     (if x = 0 then 0
      else
        (let e = max (float_exponent x - 52) (- 1074)
         in of_int (round_even (x / pow2 e)) * pow2 e))"

definition fadd :: "real \<Rightarrow> real \<Rightarrow> real" where
  "fadd a b = round64 (a + b)"

definition fsub :: "real \<Rightarrow> real \<Rightarrow> real" where
  "fsub a b = round64 (a - b)"

definition fmul :: "real \<Rightarrow> real \<Rightarrow> real" where
  "fmul a b = round64 (a * b)"

definition fdiv :: "real \<Rightarrow> real \<Rightarrow> real" where
  "fdiv a b = round64 (a / b)"

text \<open>
  \<^verbatim>\<open>d.Seconds()\<close> as Go computes it in \<^verbatim>\<open>float64\<close>, from the whole seconds and the
  nanoseconds left of \<open>d\<close> (the division and the remainder of int64 truncate towards
  zero): \<^verbatim>\<open>float64(sec) + float64(nsec)/1e9\<close>.
\<close>

definition Seconds64 :: "Duration \<Rightarrow> real" where
  "Seconds64 d =
     (let sec = (if d < 0 then - ((- d) div 1000000000) else d div 1000000000);
          nsec = (if d < 0 then - ((- d) mod 1000000000) else d mod 1000000000)
      in fadd (real_of_int sec) (fdiv (real_of_int nsec) 1000000000))"

section \<open>Records\<close>

text \<open>
  Modelled from the spec: the declaration of \<^verbatim>\<open>activity.Record\<close> is not among the
  sources. The fields are those the preprocessor reads and writes. Position,
  distance, altitude, speed, grade and pace are \<^verbatim>\<open>*float64\<close> in the code that uses
  them; cadence, heart rate, power and temperature (the spec's optional scalar sensor
  values) are taken to be integers.
\<close>

record Record =
  Timestamp :: Time
  PositionLat :: "real option"
  PositionLong :: "real option"
  Distance :: "real option"
  Altitude :: "real option"
  HeartRate :: "int option"
  Cadence :: "int option"
  Speed :: "real option"
  Power :: "int option"
  Temperature :: "int option"
  Grade :: "real option"
  Pace :: "real option"

section \<open>Options of the preprocessor\<close>

record options =
  smoothingElevDistance :: real
  calculateGradeDistance :: real

definition defaultOptions :: options where
  "defaultOptions = \<lparr>smoothingElevDistance = 30, calculateGradeDistance = 100\<rparr>"

text \<open>
  An \<^verbatim>\<open>Option\<close> is a closure over \<^verbatim>\<open>*options\<close>; its \<^verbatim>\<open>apply\<close> method is unexported,
  so the two constructors of the package are the only ones.
\<close>

datatype Option = WithSmoothingElevationDistance real | WithCalculateDistance real

fun apply_opt :: "Option \<Rightarrow> options \<Rightarrow> options" where
  "apply_opt (WithSmoothingElevationDistance d) o' =
     (if d > 0 then o'\<lparr>smoothingElevDistance := d\<rparr> else o')"
| "apply_opt (WithCalculateDistance d) o' =
     (if d > 0 then o'\<lparr>calculateGradeDistance := d\<rparr> else o')"

text \<open>A \<^verbatim>\<open>Preprocessor\<close> holds nothing but its options.\<close>

fun apply_all :: "Option list \<Rightarrow> options \<Rightarrow> options" where
  "apply_all [] o' = o'"
| "apply_all (opt # opts) o' = apply_all opts (apply_opt opt o')"

definition New :: "Option list \<Rightarrow> options" where
  "New opts = apply_all opts defaultOptions"

section \<open>AggregateByTimestamp\<close>

text \<open>
  \<^verbatim>\<open>avg\<close> is generic in the numeric type \<open>T\<close>; \<open>mean\<close> stands for
  \<^verbatim>\<open>T((float64(x) + float64(y)) / 2)\<close> at that type, for the values \<open>x\<close> and \<open>y\<close>
  that \<open>a\<close> and \<open>b\<close> point to. For \<^verbatim>\<open>float64\<close> the conversions are the identity; for
  an integer type the conversion back truncates towards zero.
\<close>

definition avg :: "('a \<Rightarrow> 'a \<Rightarrow> 'a) \<Rightarrow> 'a option \<Rightarrow> 'a option \<Rightarrow> 'a option" where
  "avg mean a b =
     (case a of
        None \<Rightarrow> b
      | Some x \<Rightarrow> (case b of Some y \<Rightarrow> Some (mean x y) | None \<Rightarrow> a))"

definition mean_float :: "real \<Rightarrow> real \<Rightarrow> real" where
  "mean_float a b = (a + b) / 2"

definition mean_int :: "int \<Rightarrow> int \<Rightarrow> int" where
  "mean_int a b = (if a + b < 0 then - ((- (a + b)) div 2) else (a + b) div 2)"

text \<open>The body of the loop over the candidates (lines 77 to 92): \<open>rec\<close> absorbs \<open>can\<close>.\<close>

definition aggregate :: "Record \<Rightarrow> Record \<Rightarrow> Record" where
  "aggregate rec can =
     rec\<lparr>PositionLat := (if PositionLat rec = None then PositionLat can else PositionLat rec),
         PositionLong := (if PositionLong rec = None then PositionLong can else PositionLong rec),
         Altitude := avg mean_float (Altitude rec) (Altitude can),
         Cadence := avg mean_int (Cadence rec) (Cadence can),
         Speed := avg mean_float (Speed rec) (Speed can),
         Distance := avg mean_float (Distance rec) (Distance can),
         HeartRate := avg mean_int (HeartRate rec) (HeartRate can),
         Power := avg mean_int (Power rec) (Power can),
         Temperature := avg mean_int (Temperature rec) (Temperature can)\<rparr>"

text \<open>
  The inner loop of lines 67 to 74, for \<open>rec = records[i]\<close>: it returns the value of
  \<open>i\<close> after the loop and the candidates (pointers, so indices). \<open>i\<close> is assigned only
  on the way out through \<^verbatim>\<open>break\<close>.
\<close>

function collect_candidates :: "Record list \<Rightarrow> nat \<Rightarrow> nat \<Rightarrow> nat list \<Rightarrow> nat \<times> nat list" where
  "collect_candidates records i j candidates =
     (if j < length records then
        (if \<not> Equal (Timestamp (records ! i)) (Timestamp (records ! j)) then (j - 1, candidates)
         else collect_candidates records i (j + 1) (candidates @ [j]))
      else (i, candidates))"
  by pat_completeness auto
termination
  by (relation "measure (\<lambda>(records, i, j, candidates). length records - j)") auto

declare collect_candidates.simps [simp del]

text \<open>The loop of lines 76 to 93: the record at \<open>i\<close> absorbs the candidates in turn.\<close>

fun aggregate_candidates :: "Record list \<Rightarrow> nat \<Rightarrow> nat list \<Rightarrow> Record list" where
  "aggregate_candidates records i [] = records"
| "aggregate_candidates records i (c # cs) =
     aggregate_candidates (records[i := aggregate (records ! i) (records ! c)]) i cs"

text \<open>
  The outer loop: the state is the slice's records, the loop variable \<open>i\<close> and
  \<open>newRecords\<close> (pointers).
\<close>

function aggregate_loop :: "Record list \<Rightarrow> nat \<Rightarrow> nat list \<Rightarrow> Record list \<times> nat list" where
  "aggregate_loop records i newRecords =
     (if i < length records then
        (case collect_candidates records i (i + 1) [] of
           (i', candidates) \<Rightarrow>
             aggregate_loop (aggregate_candidates records i candidates) (i' + 1) (newRecords @ [i]))
      else (records, newRecords))"
  by pat_completeness auto
termination
proof (relation "measure (\<lambda>(records, i, newRecords). length records - i)")
  show "wf (measure (\<lambda>(records, i, newRecords). length records - i))"
    by simp
next
  fix records :: "Record list" and i :: nat and newRecords :: "nat list"
    and i' :: nat and candidates :: "nat list"
  assume lt: "i < length records"
    and p: "(i', candidates) = collect_candidates records i (i + 1) []"
  have ge: "i < j \<Longrightarrow> i \<le> fst (collect_candidates records i j c)" for j c
  proof (induction records i j c rule: collect_candidates.induct)
    case (1 records i j c)
    then show ?case
      by (subst collect_candidates.simps) auto
  qed
  have len: "length (aggregate_candidates rs i cs) = length rs" for rs cs
    by (induction cs arbitrary: rs) auto
  have "i \<le> fst (collect_candidates records i (i + 1) [])"
    by (rule ge) simp
  with p have "i \<le> i'"
    by (metis fst_conv)
  with lt len
  show "((aggregate_candidates records i candidates, i' + 1, newRecords @ [i]),
         (records, i, newRecords))
        \<in> measure (\<lambda>(records, i, newRecords). length records - i)"
    by simp
qed

declare aggregate_loop.simps [simp del]

text \<open>
  \<open>AggregateByTimestamp\<close> returns the records of the input slice as the call leaves
  them, and the returned slice \<open>newRecords\<close>: pointers to records of the input slice.
  \<open>returned\<close> reads the records that the returned slice points to.
\<close>

definition AggregateByTimestamp :: "Record list \<Rightarrow> Record list \<times> nat list" where
  "AggregateByTimestamp records = aggregate_loop records 0 []"

definition returned :: "Record list \<times> nat list \<Rightarrow> Record list" where
  "returned res = map (\<lambda>p. fst res ! p) (snd res)"

section \<open>CalculateDistanceAndSpeed\<close>

text \<open>
  \<^verbatim>\<open>geomath.VincentyDistance\<close> is not among the sources: the stage takes it as the
  parameter \<open>VincentyDistance\<close>.

  Lines 108 to 129, for \<open>prev = records[i-1]\<close> and \<open>rec = records[i]\<close>: the point
  distance and the record with its distance filled in.
\<close>

definition point_distance ::
  "(real \<Rightarrow> real \<Rightarrow> real \<Rightarrow> real \<Rightarrow> real) \<Rightarrow> Record \<Rightarrow> Record \<Rightarrow> real \<times> Record" where
  "point_distance VincentyDistance prev rec =
     (if Distance rec = None then
        (if PositionLat rec \<noteq> None \<and> PositionLong rec \<noteq> None \<and>
            PositionLat prev \<noteq> None \<and> PositionLong prev \<noteq> None then
           (let prevDist = (case Distance prev of Some d \<Rightarrow> d | None \<Rightarrow> 0);
                pointDistance =
                  VincentyDistance (the (PositionLat rec)) (the (PositionLong rec))
                    (the (PositionLat prev)) (the (PositionLong prev))
            in (pointDistance, rec\<lparr>Distance := Some (prevDist + pointDistance)\<rparr>))
         else (0, rec))
      else if Distance rec \<noteq> None \<and> Distance prev \<noteq> None then
        (the (Distance rec) - the (Distance prev), rec)
      else (0, rec))"

text \<open>Lines 131 to 138.\<close>

definition point_speed :: "real \<Rightarrow> Record \<Rightarrow> Record \<Rightarrow> Record" where
  "point_speed pointDistance prev rec =
     (if Speed rec = None \<and> pointDistance > 0 then
        (let elapsed = Seconds (Sub (Timestamp rec) (Timestamp prev)) in
         if elapsed > 0 then rec\<lparr>Speed := Some (pointDistance / elapsed)\<rparr> else rec)
      else rec)"

definition distance_and_speed ::
  "(real \<Rightarrow> real \<Rightarrow> real \<Rightarrow> real \<Rightarrow> real) \<Rightarrow> Record \<Rightarrow> Record \<Rightarrow> Record" where
  "distance_and_speed VincentyDistance prev rec =
     (case point_distance VincentyDistance prev rec of
        (pointDistance, rec') \<Rightarrow> point_speed pointDistance prev rec')"

function distance_and_speed_loop ::
  "(real \<Rightarrow> real \<Rightarrow> real \<Rightarrow> real \<Rightarrow> real) \<Rightarrow> Record list \<Rightarrow> nat \<Rightarrow> Record list" where
  "distance_and_speed_loop VincentyDistance records i =
     (if i < length records then
        distance_and_speed_loop VincentyDistance
          (records[i := distance_and_speed VincentyDistance (records ! (i - 1)) (records ! i)])
          (i + 1)
      else records)"
  by pat_completeness auto
termination
  by (relation "measure (\<lambda>(V, records, i). length records - i)") auto

declare distance_and_speed_loop.simps [simp del]

definition CalculateDistanceAndSpeed ::
  "(real \<Rightarrow> real \<Rightarrow> real \<Rightarrow> real \<Rightarrow> real) \<Rightarrow> Record list \<Rightarrow> Record list" where
  "CalculateDistanceAndSpeed VincentyDistance records =
     distance_and_speed_loop VincentyDistance records 1"

section \<open>SmoothingElev\<close>

text \<open>
  The inner loop of lines 151 to 163, from \<open>j\<close> down to 0, for \<open>rec = records[i]\<close>.
  It reads the records of the slice as they are when it runs.
\<close>

function smoothing_window ::
  "options \<Rightarrow> Record list \<Rightarrow> nat \<Rightarrow> int \<Rightarrow> real \<Rightarrow> real \<Rightarrow> real \<times> real" where
  "smoothing_window p records i j sum_alt counter =
     (if j \<ge> 0 then
        (let prev = records ! nat j in
         if Distance prev = None \<or> Altitude prev = None then
           smoothing_window p records i (j - 1) sum_alt counter
         else
           (let d = the (Distance (records ! i)) - the (Distance prev) in
            if d > smoothingElevDistance p then (sum_alt, counter)
            else smoothing_window p records i (j - 1) (sum_alt + the (Altitude prev)) (counter + 1)))
      else (sum_alt, counter))"
  by pat_completeness auto
termination
  by (relation "measure (\<lambda>(p, records, i, j, sum_alt, counter). nat (j + 1))") auto

declare smoothing_window.simps [simp del]

text \<open>
  The body of the outer loop, lines 145 to 166: the record that it leaves at \<open>i\<close>
  (\<^verbatim>\<open>continue\<close> leaves the record as it is).
\<close>

definition smoothing :: "options \<Rightarrow> Record list \<Rightarrow> nat \<Rightarrow> Record" where
  "smoothing p records i =
     (let rec = records ! i in
      if Distance rec = None \<or> Altitude rec = None then rec
      else
        (case smoothing_window p records i (int i) 0 0 of
           (sum_alt, counter) \<Rightarrow> rec\<lparr>Altitude := Some (sum_alt / counter)\<rparr>))"

function smoothing_loop :: "options \<Rightarrow> Record list \<Rightarrow> nat \<Rightarrow> Record list" where
  "smoothing_loop p records i =
     (if i < length records then
        smoothing_loop p (records[i := smoothing p records i]) (i + 1)
      else records)"
  by pat_completeness auto
termination
  by (relation "measure (\<lambda>(p, records, i). length records - i)") auto

declare smoothing_loop.simps [simp del]

definition SmoothingElev :: "options \<Rightarrow> Record list \<Rightarrow> Record list" where
  "SmoothingElev p records = smoothing_loop p records 0"

section \<open>CalculateGrade\<close>

text \<open>
  The inner loop of lines 179 to 191, for \<open>rec = records[i]\<close>; it returns \<open>(run, rise)\<close>.
  The differences and the grade are those of \<^verbatim>\<open>float64\<close>.
\<close>

function grade_window ::
  "options \<Rightarrow> Record list \<Rightarrow> nat \<Rightarrow> nat \<Rightarrow> real \<Rightarrow> real \<Rightarrow> real \<times> real" where
  "grade_window p records i j run rise =
     (if j < length records then
        (let next = records ! j in
         if Distance next = None \<or> Altitude next = None then
           grade_window p records i (j + 1) run rise
         else
           (let d = fsub (the (Distance next)) (the (Distance (records ! i))) in
            if d > calculateGradeDistance p then (run, rise)
            else grade_window p records i (j + 1) d
                   (fsub (the (Altitude next)) (the (Altitude (records ! i))))))
      else (run, rise))"
  by pat_completeness auto
termination
  by (relation "measure (\<lambda>(p, records, i, j, run, rise). length records - j)") auto

declare grade_window.simps [simp del]

text \<open>
  The body of the outer loop, lines 173 to 199: the record that it leaves at \<open>i\<close>
  (\<^verbatim>\<open>continue\<close> leaves the record as it is).
\<close>

definition grade :: "options \<Rightarrow> Record list \<Rightarrow> nat \<Rightarrow> Record" where
  "grade p records i =
     (let rec = records ! i in
      if Distance rec = None \<or> Altitude rec = None then rec
      else
        (case grade_window p records i (i + 1) 0 0 of
           (run, rise) \<Rightarrow>
             if rise = 0 \<or> run = 0 then rec
             else rec\<lparr>Grade := Some (fmul (fdiv rise run) 100)\<rparr>))"

function grade_loop :: "options \<Rightarrow> Record list \<Rightarrow> nat \<Rightarrow> Record list" where
  "grade_loop p records i =
     (if i < length records then
        grade_loop p (records[i := grade p records i]) (i + 1)
      else records)"
  by pat_completeness auto
termination
  by (relation "measure (\<lambda>(p, records, i). length records - i)") auto

declare grade_loop.simps [simp del]

definition CalculateGrade :: "options \<Rightarrow> Record list \<Rightarrow> Record list" where
  "CalculateGrade p records = grade_loop p records 0"

section \<open>CalculatePace\<close>

text \<open>
  \<^verbatim>\<open>activity.IsConsideredMoving\<close> is not among the sources: the stage takes it as the
  parameter \<open>IsConsideredMoving\<close>. The body of the loop, lines 206 to 229, in the
  arithmetic of \<^verbatim>\<open>float64\<close>; the constant 3.6 is the double nearest to it. When
  \<open>speedkph\<close> is zero the code divides by zero and stores an infinity, which the model
  does not represent: the result is then \<open>None\<close>.
\<close>

definition pace ::
  "(string \<Rightarrow> real option \<Rightarrow> bool) \<Rightarrow> string \<Rightarrow> Record \<Rightarrow> Record \<Rightarrow> Record option" where
  "pace IsConsideredMoving sport prev rec =
     (if Distance rec = None \<or> IsZero (Timestamp rec) \<or>
         Distance prev = None \<or> IsZero (Timestamp prev) then Some rec
      else if \<not> IsConsideredMoving sport (Speed rec) then Some rec
      else if Speed rec = None then
        (let pointDistance = fsub (the (Distance rec)) (the (Distance prev));
             elapsed = Seconds64 (Sub (Timestamp rec) (Timestamp prev));
             pointDistanceInKM = fdiv pointDistance 1000
         in if pointDistanceInKM = 0 then Some rec
            else Some (rec\<lparr>Pace := Some (fdiv elapsed pointDistanceInKM)\<rparr>))
      else
        (let speedkph = fmul (the (Speed rec)) (round64 3.6)
         in if speedkph = 0 then None
            else Some (rec\<lparr>Pace := Some (fmul (fmul (fdiv 1 speedkph) 60) 60)\<rparr>)))"

text \<open>The loop; \<open>None\<close> when a round has stored a value that the model does not represent.\<close>

function pace_loop ::
  "(string \<Rightarrow> real option \<Rightarrow> bool) \<Rightarrow> string \<Rightarrow> Record list \<Rightarrow> nat \<Rightarrow> Record list option" where
  "pace_loop IsConsideredMoving sport records i =
     (if i < length records then
        (case pace IsConsideredMoving sport (records ! (i - 1)) (records ! i) of
           None \<Rightarrow> None
         | Some rec' \<Rightarrow> pace_loop IsConsideredMoving sport (records[i := rec']) (i + 1))
      else Some records)"
  by pat_completeness auto
termination
  by (relation "measure (\<lambda>(m, sport, records, i). length records - i)") auto

declare pace_loop.simps [simp del]

definition CalculatePace ::
  "(string \<Rightarrow> real option \<Rightarrow> bool) \<Rightarrow> string \<Rightarrow> Record list \<Rightarrow> Record list option" where
  "CalculatePace IsConsideredMoving sport records =
     pace_loop IsConsideredMoving sport records 1"

section \<open>Decoding the device and version elements\<close>

text \<open>
  The tokens of \<^verbatim>\<open>encoding/xml\<close>. A decoder is modelled by the tokens it has yet to
  deliver; \<^verbatim>\<open>dec.Token()\<close> takes the first one, and fails with \<^verbatim>\<open>io.EOF\<close> when none is
  left.
\<close>

record XMLName =
  Space :: string
  Local :: string

datatype Token =
    StartElement XMLName "(XMLName \<times> string) list"
  | EndElement XMLName
  | CharData string
  | Comment string
  | ProcInst string string
  | Directive string

text \<open>The errors: \<^verbatim>\<open>io.EOF\<close>, and the \<^verbatim>\<open>*strconv.NumError\<close> of \<^verbatim>\<open>ParseUint\<close> for the input.\<close>

datatype error = EOF | ErrSyntax string | ErrRange string

text \<open>
  \<^verbatim>\<open>strconv.ParseUint(s, 10, bitSize)\<close> of the Go library, digit by digit over a
  uint64 accumulator: a byte that is no decimal digit is a syntax error, and a value
  that leaves the uint64 or exceeds \<open>2 ^ bitSize - 1\<close> is a range error at the digit
  where it does.
\<close>

definition maxUint64 :: nat where
  "maxUint64 = 2 ^ 64 - 1"

definition is_digit :: "char \<Rightarrow> bool" where
  "is_digit c = (48 \<le> (of_char c :: nat) \<and> (of_char c :: nat) \<le> 57)"

definition digit_of :: "char \<Rightarrow> nat" where
  "digit_of c = of_char c - 48"

fun parse_digits :: "string \<Rightarrow> nat \<Rightarrow> nat \<Rightarrow> string \<Rightarrow> error + nat" where
  "parse_digits s0 maxVal n [] = Inr n"
| "parse_digits s0 maxVal n (c # cs) =
     (if \<not> is_digit c then Inl (ErrSyntax s0)
      else if n \<ge> maxUint64 div 10 + 1 then Inl (ErrRange s0)
      else
        (let n10 = (n * 10) mod 2 ^ 64;
             n1 = (n10 + digit_of c) mod 2 ^ 64
         in if n1 < n10 \<or> n1 > maxVal then Inl (ErrRange s0)
            else parse_digits s0 maxVal n1 cs))"

definition ParseUint :: "string \<Rightarrow> nat \<Rightarrow> error + nat" where
  "ParseUint s bitSize =
     (if s = [] then Inl (ErrSyntax s)
      else parse_digits s ((2 ^ bitSize) mod 2 ^ 64 - 1) 0 s)"

record Version =
  VersionMajor :: "16 word"
  VersionMinor :: "16 word"
  BuildMajor :: "16 word"
  BuildMinor :: "16 word"

record Device =
  Name :: string
  UnitId :: "32 word"
  ProductID :: "16 word"
  Version :: "Version option"

definition End :: "XMLName \<Rightarrow> Token" where
  "End se = EndElement se"

text \<open>
  \<^verbatim>\<open>Version.UnmarshalXML\<close>, lines 171 to 216. The loop's state is \<open>targetCharData\<close>,
  the receiver \<open>v\<close> and the decoder; \<open>se\<close> is the name of the start element. It returns
  the error (or none), the receiver and the decoder as the call leaves them.
\<close>

fun Version_loop ::
  "XMLName \<Rightarrow> string \<Rightarrow> Version \<Rightarrow> Token list \<Rightarrow> error option \<times> Version \<times> Token list" where
  "Version_loop se targetCharData v [] = (Some EOF, v, [])"
| "Version_loop se targetCharData v (token # dec) =
     (case token of
        StartElement name attr \<Rightarrow> Version_loop se (Local name) v dec
      | CharData elem \<Rightarrow>
          (if targetCharData = ''VersionMajor'' then
             (case ParseUint elem 16 of
                Inl err \<Rightarrow> (Some err, v, dec)
              | Inr u \<Rightarrow> Version_loop se [] (v\<lparr>VersionMajor := of_nat u\<rparr>) dec)
           else if targetCharData = ''VersionMinor'' then
             (case ParseUint elem 16 of
                Inl err \<Rightarrow> (Some err, v, dec)
              | Inr u \<Rightarrow> Version_loop se [] (v\<lparr>VersionMinor := of_nat u\<rparr>) dec)
           else if targetCharData = ''BuildMajor'' then
             (case ParseUint elem 16 of
                Inl err \<Rightarrow> (Some err, v, dec)
              | Inr u \<Rightarrow> Version_loop se [] (v\<lparr>BuildMajor := of_nat u\<rparr>) dec)
           else if targetCharData = ''BuildMinor'' then
             (case ParseUint elem 16 of
                Inl err \<Rightarrow> (Some err, v, dec)
              | Inr u \<Rightarrow> Version_loop se [] (v\<lparr>BuildMinor := of_nat u\<rparr>) dec)
           else Version_loop se [] v dec)
      | EndElement name \<Rightarrow>
          (if EndElement name = End se then (None, v, dec)
           else Version_loop se targetCharData v dec)
      | _ \<Rightarrow> Version_loop se targetCharData v dec)"

definition Version_UnmarshalXML ::
  "Version \<Rightarrow> Token list \<Rightarrow> XMLName \<Rightarrow> error option \<times> Version \<times> Token list" where
  "Version_UnmarshalXML v dec se = Version_loop se [] v dec"

definition zero_Version :: Version where
  "zero_Version = \<lparr>VersionMajor = 0, VersionMinor = 0, BuildMajor = 0, BuildMinor = 0\<rparr>"

text \<open>\<^verbatim>\<open>Device.UnmarshalXML\<close>, lines 115 to 160, in the same way.\<close>

function Device_loop ::
  "XMLName \<Rightarrow> string \<Rightarrow> Device \<Rightarrow> Token list \<Rightarrow> error option \<times> Device \<times> Token list" where
  "Device_loop se targetCharData d [] = (Some EOF, d, [])"
| "Device_loop se targetCharData d (token # dec) =
     (case token of
        StartElement name attr \<Rightarrow>
          (if Local name = ''Version'' then
             (case Version_UnmarshalXML zero_Version dec name of
                (Some err, version, dec') \<Rightarrow> (Some err, d, dec')
              | (None, version, dec') \<Rightarrow>
                  Device_loop se targetCharData (d\<lparr>Version := Some version\<rparr>) dec')
           else Device_loop se (Local name) d dec)
      | CharData elem \<Rightarrow>
          (if targetCharData = ''Name'' then Device_loop se [] (d\<lparr>Name := elem\<rparr>) dec
           else if targetCharData = ''UnitId'' then
             (case ParseUint elem 32 of
                Inl err \<Rightarrow> (Some err, d, dec)
              | Inr u \<Rightarrow> Device_loop se [] (d\<lparr>UnitId := of_nat u\<rparr>) dec)
           else if targetCharData = ''ProductID'' then
             (case ParseUint elem 16 of
                Inl err \<Rightarrow> (Some err, d, dec)
              | Inr u \<Rightarrow> Device_loop se [] (d\<lparr>ProductID := of_nat u\<rparr>) dec)
           else Device_loop se [] d dec)
      | EndElement name \<Rightarrow>
          (if EndElement name = End se then (None, d, dec)
           else Device_loop se targetCharData d dec)
      | _ \<Rightarrow> Device_loop se targetCharData d dec)"
  by pat_completeness auto
termination
proof (relation "measure (\<lambda>(se, targetCharData, d, dec). length dec)", goal_cases)
  case 1
  show ?case by simp
next
  case (2 se targetCharData d token dec name attr x err version dec')
  have "length (snd (snd (Version_loop n t v ts))) \<le> length ts" for n t v ts
    by (induction n t v ts rule: Version_loop.induct)
       (auto split: Token.splits sum.splits simp: le_SucI)
  from this [of name "[]" zero_Version dec] 2 show ?case
    by (cases "Version_loop name [] zero_Version dec") (auto simp: Version_UnmarshalXML_def)
qed auto

definition Device_UnmarshalXML ::
  "Device \<Rightarrow> Token list \<Rightarrow> XMLName \<Rightarrow> error option \<times> Device \<times> Token list" where
  "Device_UnmarshalXML d dec se = Device_loop se [] d dec"

section \<open>The properties in the words of the specification\<close>

text \<open>
  The point delta of section 4.2 of the specification, for a record and the record
  before it: the geodesic distance of the two positions when the record has no
  distance and both have a position; the difference of the two distances when both
  are present; no delta otherwise.
\<close>

definition point_delta ::
  "(real \<Rightarrow> real \<Rightarrow> real \<Rightarrow> real \<Rightarrow> real) \<Rightarrow> Record \<Rightarrow> Record \<Rightarrow> real" where
  "point_delta VincentyDistance prev rec =
     (if Distance rec = None then
        (if PositionLat rec \<noteq> None \<and> PositionLong rec \<noteq> None \<and>
            PositionLat prev \<noteq> None \<and> PositionLong prev \<noteq> None
         then VincentyDistance (the (PositionLat rec)) (the (PositionLong rec))
                (the (PositionLat prev)) (the (PositionLong prev))
         else 0)
      else (case Distance prev of Some dp \<Rightarrow> the (Distance rec) - dp | None \<Rightarrow> 0))"

text \<open>
  The other semantics that section 9 of the specification considers for the elevation
  smoother, "smooth from original readings": every record is smoothed over a snapshot
  of the input.
\<close>

definition SmoothingElev_snapshot :: "options \<Rightarrow> Record list \<Rightarrow> Record list" where
  "SmoothingElev_snapshot p records = map (smoothing p records) [0..<length records]"

text \<open>
  The grade of section 4.4 of the specification, for the record at \<open>i\<close>. The
  candidates are the later records with distance and altitude present; scanning
  stops at the first candidate whose run exceeds the window, which is discarded; the
  rise and run are those of the last candidate before that. No grade is assigned
  (\<open>None\<close>) when there is no such candidate or when the rise or the run is zero.
  The run, the rise and the grade are computed in \<^verbatim>\<open>float64\<close>.
\<close>

definition present :: "Record \<Rightarrow> bool" where
  "present r = (Distance r \<noteq> None \<and> Altitude r \<noteq> None)"

definition in_grade_window :: "options \<Rightarrow> Record \<Rightarrow> Record \<Rightarrow> bool" where
  "in_grade_window p rec next =
     (\<not> fsub (the (Distance next)) (the (Distance rec)) > calculateGradeDistance p)"

definition grade_candidates :: "options \<Rightarrow> Record list \<Rightarrow> nat \<Rightarrow> Record list" where
  "grade_candidates p records i =
     takeWhile (in_grade_window p (records ! i)) (filter present (drop (i + 1) records))"

definition grade_spec :: "options \<Rightarrow> Record list \<Rightarrow> nat \<Rightarrow> real option" where
  "grade_spec p records i =
     (let candidates = grade_candidates p records i in
      if candidates = [] then None
      else
        (let rise = fsub (the (Altitude (last candidates))) (the (Altitude (records ! i)));
             run = fsub (the (Distance (last candidates))) (the (Distance (records ! i)))
         in if rise = 0 \<or> run = 0 then None else Some (fmul (fdiv rise run) 100)))"

text \<open>The number that a string of decimal digits denotes.\<close>

fun decimal :: "nat \<Rightarrow> string \<Rightarrow> nat" where
  "decimal n [] = n"
| "decimal n (c # cs) = decimal (n * 10 + digit_of c) cs"

definition decimal_value :: "string \<Rightarrow> nat" where
  "decimal_value s = decimal 0 s"

text \<open>
  The records that follow the one at \<open>i\<close> and share its timestamp, up to the first
  one that does not: the rest of the run that the record at \<open>i\<close> starts.
\<close>

definition run_after :: "Record list \<Rightarrow> nat \<Rightarrow> Record list" where
  "run_after records i =
     takeWhile (\<lambda>r. Timestamp r = Timestamp (records ! i)) (drop (i + 1) records)"

section \<open>Sample inputs\<close>

text \<open>A record with a timestamp, a distance, an altitude and a speed, and nothing else.\<close>

definition sample :: "Time \<Rightarrow> real option \<Rightarrow> real option \<Rightarrow> real option \<Rightarrow> Record" where
  "sample t distance altitude speed =
     \<lparr>Timestamp = t, PositionLat = None, PositionLong = None, Distance = distance,
      Altitude = altitude, HeartRate = None, Cadence = None, Speed = speed, Power = None,
      Temperature = None, Grade = None, Pace = None\<rparr>"

definition always_moving :: "string \<Rightarrow> real option \<Rightarrow> bool" where
  "always_moving sport speed = True"

definition distinct_records :: "Record list" where
  "distinct_records =
     [sample 1 None (Some 10) None, sample 2 None (Some 20) None, sample 3 None None None]"

text \<open>Two records one second apart, ten metres apart, the second at 10 m/s.\<close>

definition pace_records :: "Record list" where
  "pace_records =
     [sample 1000000000 (Some 0) None None, sample 2000000000 (Some 10) None (Some 10)]"

text \<open>A record with a position. \<open>taxicab\<close> stands in for the geodesic distance.\<close>

definition located :: "Time \<Rightarrow> real \<Rightarrow> real \<Rightarrow> real option \<Rightarrow> Record" where
  "located t lat long distance =
     \<lparr>Timestamp = t, PositionLat = Some lat, PositionLong = Some long, Distance = distance,
      Altitude = None, HeartRate = None, Cadence = None, Speed = None, Power = None,
      Temperature = None, Grade = None, Pace = None\<rparr>"

definition taxicab :: "real \<Rightarrow> real \<Rightarrow> real \<Rightarrow> real \<Rightarrow> real" where
  "taxicab lat1 long1 lat2 long2 = \<bar>lat1 - lat2\<bar> + \<bar>long1 - long2\<bar>"

definition located_records :: "Record list" where
  "located_records =
     [located 1000000000 0 0 (Some 5), located 3000000000 3 4 None]"

text \<open>Three records ten metres apart, at altitudes 0, 10 and 20.\<close>

definition ramp_records :: "Record list" where
  "ramp_records =
     [sample 1000000000 (Some 0) (Some 0) None, sample 2000000000 (Some 10) (Some 10) None,
      sample 3000000000 (Some 20) (Some 20) None]"

text \<open>Four records ten metres apart, at altitudes 0, 1, 3 and 9.\<close>

definition climb_records :: "Record list" where
  "climb_records =
     [sample 1000000000 (Some 0) (Some 0) None, sample 2000000000 (Some 10) (Some 1) None,
      sample 3000000000 (Some 20) (Some 3) None, sample 4000000000 (Some 30) (Some 9) None]"

text \<open>
  Three records at the distances that the literals 0.2, 50.2 and 100.2 denote in
  \<^verbatim>\<open>float64\<close>, at altitudes 0, 1 and 8. In \<^verbatim>\<open>float64\<close> the gap between the first and the
  last is 100, which the default grade window holds.
\<close>

definition boundary_records :: "Record list" where
  "boundary_records =
     [sample 1000000000 (Some (round64 0.2)) (Some 0) None,
      sample 2000000000 (Some (round64 50.2)) (Some 1) None,
      sample 3000000000 (Some (round64 100.2)) (Some 8) None]"

text \<open>A device before decoding, and the name of an element that holds a device.\<close>

definition zero_Device :: Device where
  "zero_Device = \<lparr>Name = [], UnitId = 0, ProductID = 0, Version = None\<rparr>"

definition creator :: XMLName where
  "creator = \<lparr>Space = [], Local = ''Creator''\<rparr>"

text \<open>
  Two records of one timestamp, the second with a grade and a pace; and three records
  of one timestamp, at altitudes 10, 20 and 30.
\<close>

definition graded_records :: "Record list" where
  "graded_records =
     [sample 5 None None None, (sample 5 None None None)\<lparr>Grade := Some 3, Pace := Some 4\<rparr>]"

definition run_records :: "Record list" where
  "run_records =
     [sample 5 None (Some 10) None, sample 5 None (Some 20) None, sample 5 None (Some 30) None]"

section \<open>AggregateByTimestamp: properties\<close>

lemma collect_candidates_distinct:
  assumes "distinct (map Timestamp records)" and "i < length records"
  shows "collect_candidates records i (i + 1) [] = (i, [])"
proof (cases "i + 1 < length records")
  case True
  with assms have "Timestamp (records ! i) \<noteq> Timestamp (records ! (i + 1))"
    by (simp add: distinct_conv_nth)
  with True show ?thesis
    by (subst collect_candidates.simps) (simp add: Equal_def)
next
  case False
  then show ?thesis
    by (subst collect_candidates.simps) simp
qed

lemma aggregate_loop_distinct:
  "distinct (map Timestamp records) \<Longrightarrow> i \<le> length records \<Longrightarrow>
   aggregate_loop records i newRecords = (records, newRecords @ [i..<length records])"
proof (induction records i newRecords rule: aggregate_loop.induct)
  case (1 records i newRecords)
  show ?case
  proof (cases "i < length records")
    case True
    have c: "collect_candidates records i (i + 1) [] = (i, [])"
      using "1.prems"(1) True by (rule collect_candidates_distinct)
    have "aggregate_loop records (i + 1) (newRecords @ [i]) =
          (records, (newRecords @ [i]) @ [i + 1..<length records])"
      using "1.IH" [OF True c [symmetric]] "1.prems"(1) True by simp
    then show ?thesis
      using True c by (subst aggregate_loop.simps) (simp add: upt_conv_Cons)
  next
    case False
    with "1.prems" show ?thesis
      by (subst aggregate_loop.simps) simp
  qed
qed

text \<open>
  Claim C1, at the input the claim names: three records that bear the same timestamp,
  with altitudes 100, 102 and 104. The run reaches the end of the slice, so the inner
  loop ends without \<^verbatim>\<open>break\<close> and \<open>i\<close> is not moved to the end of the run: the outer
  loop goes on at the second and at the third record of the run, and the returned
  slice holds all three records, not one. When a record of another timestamp follows
  the same run, the run is collapsed into its first record.
\<close>

theorem AggregateByTimestamp_trailing_run:
  "snd (AggregateByTimestamp
     [sample 5 None (Some 100) None, sample 5 None (Some 102) None,
      sample 5 None (Some 104) None])
   = [0, 1, 2] \<and>
   map Altitude (returned (AggregateByTimestamp
     [sample 5 None (Some 100) None, sample 5 None (Some 102) None,
      sample 5 None (Some 104) None]))
   = [Some 102.5, Some 103, Some 104] \<and>
   snd (AggregateByTimestamp
     [sample 5 None (Some 100) None, sample 5 None (Some 102) None,
      sample 5 None (Some 104) None, sample 6 None None None])
   = [0, 3]"
  by code_simp

text \<open>
  Claim C8: when the timestamps of the input are pairwise distinct,
  \<open>AggregateByTimestamp\<close> leaves every record as it is and returns the pointers of the
  input slice in their order, so the returned sequence equals the input.
\<close>

theorem AggregateByTimestamp_distinct:
  "distinct (map Timestamp records) \<Longrightarrow>
   AggregateByTimestamp records = (records, [0..<length records]) \<and>
   returned (AggregateByTimestamp records) = records"
  by (simp add: AggregateByTimestamp_def returned_def aggregate_loop_distinct map_nth)

theorem AggregateByTimestamp_distinct_witness:
  "distinct (map Timestamp distinct_records) \<and>
   AggregateByTimestamp distinct_records = (distinct_records, [0..<length distinct_records]) \<and>
   returned (AggregateByTimestamp distinct_records) = distinct_records"
proof -
  have h: "distinct (map Timestamp distinct_records)"
    by (simp add: distinct_records_def sample_def)
  show ?thesis
    using h AggregateByTimestamp_distinct [OF h] by blast
qed

section \<open>AggregateByTimestamp: runs\<close>

lemma collect_candidates_eq:
  "collect_candidates records i j candidates =
     (let n = length (takeWhile (\<lambda>r. Timestamp r = Timestamp (records ! i)) (drop j records)) in
      (if j + n < length records then j + n - 1 else i, candidates @ [j..<j + n]))"
proof (induction records i j candidates rule: collect_candidates.induct)
  case (1 records i j candidates)
  show ?case
  proof (cases "j < length records")
    case False
    then show ?thesis
      by (subst collect_candidates.simps) simp
  next
    case True
    note j = this
    have drop: "drop j records = records ! j # drop (j + 1) records"
      using j by (simp add: Cons_nth_drop_Suc)
    show ?thesis
    proof (cases "Equal (Timestamp (records ! i)) (Timestamp (records ! j))")
      case False
      with j show ?thesis
        by (subst collect_candidates.simps) (auto simp: drop Equal_def)
    next
      case True
      then have eq: "Timestamp (records ! j) = Timestamp (records ! i)"
        by (simp add: Equal_def)
      define n where
        "n = length (takeWhile (\<lambda>r. Timestamp r = Timestamp (records ! i)) (drop (j + 1) records))"
      have len: "length (takeWhile (\<lambda>r. Timestamp r = Timestamp (records ! i)) (drop j records))
                   = n + 1"
        using eq by (simp add: drop n_def)
      have upt: "[j..<j + (n + 1)] = j # [j + 1..<j + 1 + n]"
        by (simp add: upt_conv_Cons)
      have "collect_candidates records i j candidates =
            collect_candidates records i (j + 1) (candidates @ [j])"
        using j True by (subst collect_candidates.simps) simp
      also have "\<dots> = (if j + 1 + n < length records then j + 1 + n - 1 else i,
                         (candidates @ [j]) @ [j + 1..<j + 1 + n])"
        using "1.IH" [OF j] True by (simp add: Let_def n_def)
      also have "\<dots> = (if j + (n + 1) < length records then j + (n + 1) - 1 else i,
                         candidates @ [j..<j + (n + 1)])"
        by (simp only: upt) simp
      finally show ?thesis
        by (simp only: len Let_def)
    qed
  qed
qed


lemma aggregate_candidates_eq:
  "\<forall>c \<in> set cs. c \<noteq> i \<Longrightarrow> i < length records \<Longrightarrow>
   aggregate_candidates records i cs =
     records[i := foldl aggregate (records ! i) (map (\<lambda>c. records ! c) cs)]"
proof (induction cs arbitrary: records)
  case Nil
  then show ?case by simp
next
  case (Cons c cs)
  let ?records' = "records[i := aggregate (records ! i) (records ! c)]"
  have m: "map (\<lambda>c. ?records' ! c) cs = map (\<lambda>c. records ! c) cs"
    using Cons.prems(1) by (intro map_cong) auto
  have i: "?records' ! i = aggregate (records ! i) (records ! c)"
    using Cons.prems(2) by simp
  have "aggregate_candidates records i (c # cs) = aggregate_candidates ?records' i cs"
    by simp
  also have "\<dots> = ?records'[i := foldl aggregate (?records' ! i) (map (\<lambda>c. ?records' ! c) cs)]"
    using Cons.prems by (intro Cons.IH) simp_all
  also have "\<dots> = ?records'[i := foldl aggregate (aggregate (records ! i) (records ! c))
                                   (map (\<lambda>c. records ! c) cs)]"
    by (simp only: m i)
  also have "\<dots> = records[i := foldl aggregate (records ! i) (map (\<lambda>c. records ! c) (c # cs))]"
    by simp
  finally show ?case .
qed

lemma take_length_takeWhile: "take (length (takeWhile P xs)) xs = takeWhile P xs"
  by (induction xs) simp_all

lemma map_nth_run_after:
  "map (\<lambda>c. records ! c) [i + 1..<i + 1 + length (run_after records i)] = run_after records i"
proof -
  let ?n = "length (run_after records i)"
  have "?n \<le> length (drop (i + 1) records)"
    unfolding run_after_def by (rule length_takeWhile_le)
  then have "map (\<lambda>c. records ! c) [i + 1..<i + 1 + ?n] = take ?n (drop (i + 1) records)"
    by (intro nth_equalityI) (simp_all del: upt_Suc add: ac_simps)
  then show ?thesis
    by (simp add: run_after_def take_length_takeWhile)
qed

text \<open>One round of the outer loop.\<close>

lemma aggregate_loop_step:
  assumes "i < length records"
  shows "aggregate_loop records i newRecords =
     aggregate_loop (records[i := foldl aggregate (records ! i) (run_after records i)])
       (if i + 1 + length (run_after records i) < length records
        then i + 1 + length (run_after records i) else i + 1)
       (newRecords @ [i])"
proof -
  let ?n = "length (run_after records i)"
  have c: "collect_candidates records i (i + 1) [] =
        (if i + 1 + ?n < length records then i + 1 + ?n - 1 else i, [i + 1..<i + 1 + ?n])"
    by (simp add: collect_candidates_eq run_after_def Let_def)
  have "aggregate_candidates records i [i + 1..<i + 1 + ?n] =
        records[i := foldl aggregate (records ! i)
                       (map (\<lambda>c. records ! c) [i + 1..<i + 1 + ?n])]"
    using assms by (intro aggregate_candidates_eq) (auto simp del: upt_Suc)
  then have a: "aggregate_candidates records i [i + 1..<i + 1 + ?n] =
        records[i := foldl aggregate (records ! i) (run_after records i)]"
    by (simp only: map_nth_run_after)
  have "aggregate_loop records i newRecords =
        (case collect_candidates records i (i + 1) [] of
           (i', candidates) \<Rightarrow>
             aggregate_loop (aggregate_candidates records i candidates) (i' + 1) (newRecords @ [i]))"
    using assms by (subst aggregate_loop.simps) (simp only: if_True)
  also have "\<dots> = aggregate_loop (aggregate_candidates records i [i + 1..<i + 1 + ?n])
        ((if i + 1 + ?n < length records then i + 1 + ?n - 1 else i) + 1) (newRecords @ [i])"
    by (simp only: c prod.case)
  also have "(if i + 1 + ?n < length records then i + 1 + ?n - 1 else i) + 1 =
        (if i + 1 + ?n < length records then i + 1 + ?n else i + 1)"
    by simp
  finally show ?thesis
    by (simp only: a)
qed

lemma Timestamp_aggregate [simp]: "Timestamp (aggregate rec can) = Timestamp rec"
  by (simp add: aggregate_def)

lemma Timestamp_foldl_aggregate [simp]: "Timestamp (foldl aggregate rec cans) = Timestamp rec"
  by (induction cans arbitrary: rec) simp_all

text \<open>A round at \<open>i\<close> leaves the records before \<open>i\<close> and the pointers already returned.\<close>

lemma aggregate_loop_frame:
  "(\<forall>k < i. k < length records \<longrightarrow> fst (aggregate_loop records i newRecords) ! k = records ! k) \<and>
   (\<exists>more. snd (aggregate_loop records i newRecords) = newRecords @ more)"
proof (induction "length records - i" arbitrary: records i newRecords rule: less_induct)
  case less
  show ?case
  proof (cases "i < length records")
    case False
    then show ?thesis
      by (subst (1 2) aggregate_loop.simps) simp
  next
    case True
    let ?records' = "records[i := foldl aggregate (records ! i) (run_after records i)]"
    let ?i' = "if i + 1 + length (run_after records i) < length records
               then i + 1 + length (run_after records i) else i + 1"
    have step: "aggregate_loop records i newRecords = aggregate_loop ?records' ?i' (newRecords @ [i])"
      using True by (rule aggregate_loop_step)
    have "length ?records' - ?i' < length records - i"
      using True by auto
    from less [OF this, of "newRecords @ [i]"]
    have 1: "\<forall>k < ?i'. k < length ?records' \<longrightarrow>
               fst (aggregate_loop ?records' ?i' (newRecords @ [i])) ! k = ?records' ! k"
      and 2: "\<exists>more. snd (aggregate_loop ?records' ?i' (newRecords @ [i])) = (newRecords @ [i]) @ more"
      by blast+
    have "\<forall>k < i. k < length records \<longrightarrow> fst (aggregate_loop records i newRecords) ! k = records ! k"
      using 1 by (auto simp: step)
    moreover have "\<exists>more. snd (aggregate_loop records i newRecords) = newRecords @ more"
      using 2 by (auto simp: step)
    ultimately show ?thesis
      by blast
  qed
qed


lemma nth_takeWhile_holds: "k < length (takeWhile P xs) \<Longrightarrow> P (xs ! k)"
  by (metis nth_mem set_takeWhileD takeWhile_nth)

lemma run_after_same:
  assumes "i < k" and "k < i + 1 + length (run_after records i)"
  shows "Timestamp (records ! k) = Timestamp (records ! i)"
proof -
  let ?xs = "drop (i + 1) records"
  have n: "k - (i + 1) < length (run_after records i)"
    using assms by simp
  then have "Timestamp (?xs ! (k - (i + 1))) = Timestamp (records ! i)"
    unfolding run_after_def by (rule nth_takeWhile_holds)
  moreover have "length (run_after records i) \<le> length ?xs"
    unfolding run_after_def by (rule length_takeWhile_le)
  with n assms have "?xs ! (k - (i + 1)) = records ! k"
    by simp
  ultimately show ?thesis
    by simp
qed

lemma run_after_cong:
  assumes "length records = length orig"
    and "\<forall>k. m \<le> k \<longrightarrow> k < length orig \<longrightarrow> records ! k = orig ! k"
    and "m < length orig"
  shows "run_after records m = run_after orig m"
proof -
  have "drop (m + 1) records = drop (m + 1) orig"
    using assms by (intro nth_equalityI) simp_all
  moreover have "records ! m = orig ! m"
    using assms by simp
  ultimately show ?thesis
    by (simp add: run_after_def)
qed

text \<open>
  The loop reaches every record that starts a run, and leaves it folded with the
  rest of its run; the pointer to it is in the returned slice.
\<close>

lemma aggregate_loop_run:
  assumes m: "m < length orig"
    and start: "m = 0 \<or> Timestamp (orig ! (m - 1)) \<noteq> Timestamp (orig ! m)"
  shows "i \<le> m \<Longrightarrow> length records = length orig \<Longrightarrow>
     \<forall>k. i \<le> k \<longrightarrow> k < length orig \<longrightarrow> records ! k = orig ! k \<Longrightarrow>
     fst (aggregate_loop records i newRecords) ! m = foldl aggregate (orig ! m) (run_after orig m) \<and>
     m \<in> set (snd (aggregate_loop records i newRecords))"
proof (induction "m - i" arbitrary: records i newRecords rule: less_induct)
  case less
  let ?n = "length (run_after records i)"
  let ?records' = "records[i := foldl aggregate (records ! i) (run_after records i)]"
  let ?i' = "if i + 1 + ?n < length records then i + 1 + ?n else i + 1"
  have i: "i < length records"
    using less.prems m by simp
  have step: "aggregate_loop records i newRecords = aggregate_loop ?records' ?i' (newRecords @ [i])"
    using i by (rule aggregate_loop_step)
  show ?case
  proof (cases "i = m")
    case True
    have "m < ?i'" and "m < length ?records'"
      using True i by auto
    with aggregate_loop_frame [of ?i' ?records' "newRecords @ [i]"]
    have f1: "fst (aggregate_loop records i newRecords) ! m = ?records' ! m"
      and f2: "\<exists>more. snd (aggregate_loop records i newRecords) = (newRecords @ [i]) @ more"
      unfolding step by blast+
    have r1: "run_after records m = run_after orig m"
      using less.prems(2,3) m True by (intro run_after_cong) simp_all
    have r2: "records ! m = orig ! m"
      using less.prems(3) m True by simp
    have "?records' ! m = foldl aggregate (records ! m) (run_after records m)"
      using True i by simp
    also have "\<dots> = foldl aggregate (orig ! m) (run_after orig m)"
      by (simp only: r1 r2)
    finally have g1: "fst (aggregate_loop records i newRecords) ! m =
        foldl aggregate (orig ! m) (run_after orig m)"
      using f1 by simp
    from f2 obtain more where "snd (aggregate_loop records i newRecords) = (newRecords @ [i]) @ more" ..
    then have "m \<in> set (snd (aggregate_loop records i newRecords))"
      using True by simp
    with g1 show ?thesis
      by blast
  next
    case False
    with less.prems(1) have lt: "i < m"
      by simp
    have le: "?i' \<le> m"
    proof (rule ccontr)
      assume "\<not> ?i' \<le> m"
      with lt have big: "m < i + 1 + ?n"
        by (auto split: if_splits)
      then have 1: "Timestamp (records ! m) = Timestamp (records ! i)"
        using lt by (intro run_after_same) simp_all
      have 2: "Timestamp (records ! (m - 1)) = Timestamp (records ! i)"
      proof (cases "m - 1 = i")
        case True
        then show ?thesis by simp
      next
        case False
        with lt big show ?thesis
          by (intro run_after_same) simp_all
      qed
      have "records ! m = orig ! m" and "records ! (m - 1) = orig ! (m - 1)"
        using less.prems(3) m lt by simp_all
      with 1 2 start lt show False
        by simp
    qed
    have "m - ?i' < m - i"
      using lt le by (auto split: if_splits)
    moreover have "length ?records' = length orig"
      using less.prems(2) by simp
    moreover have "\<forall>k. ?i' \<le> k \<longrightarrow> k < length orig \<longrightarrow> ?records' ! k = orig ! k"
      using less.prems(3) by (auto split: if_splits)
    ultimately show ?thesis
      using less.hyps [of ?i' ?records' "newRecords @ [i]"] le by (simp only: step)
  qed
qed


lemma run_after_append:
  assumes "\<forall>r \<in> set run. Timestamp r = Timestamp rec"
    and "rest = [] \<or> Timestamp (hd rest) \<noteq> Timestamp rec"
  shows "run_after (pre @ rec # run @ rest) (length pre) = run"
proof -
  have "takeWhile (\<lambda>r. Timestamp r = Timestamp rec) rest = []"
    using assms(2) by (cases rest) auto
  with assms(1) show ?thesis
    by (simp add: run_after_def takeWhile_append2)
qed

lemma foldl_aggregate_fields:
  "Altitude (foldl aggregate rec cans) = foldl (avg mean_float) (Altitude rec) (map Altitude cans)"
  "Cadence (foldl aggregate rec cans) = foldl (avg mean_int) (Cadence rec) (map Cadence cans)"
  "Speed (foldl aggregate rec cans) = foldl (avg mean_float) (Speed rec) (map Speed cans)"
  "Distance (foldl aggregate rec cans) = foldl (avg mean_float) (Distance rec) (map Distance cans)"
  "HeartRate (foldl aggregate rec cans) = foldl (avg mean_int) (HeartRate rec) (map HeartRate cans)"
  "Power (foldl aggregate rec cans) = foldl (avg mean_int) (Power rec) (map Power cans)"
  "Temperature (foldl aggregate rec cans) =
     foldl (avg mean_int) (Temperature rec) (map Temperature cans)"
  by (induction cans arbitrary: rec) (simp_all add: aggregate_def)

lemma foldl_aggregate_derived:
  "Grade (foldl aggregate rec cans) = Grade rec"
  "Pace (foldl aggregate rec cans) = Pace rec"
  by (induction cans arbitrary: rec) (simp_all add: aggregate_def)

lemma mean_int_truncates:
  "mean_int a b =
     (if 0 \<le> a + b then \<lfloor>real_of_int (a + b) / 2\<rfloor> else \<lceil>real_of_int (a + b) / 2\<rceil>)"
proof -
  have "\<lfloor>real_of_int (a + b) / 2\<rfloor> = (a + b) div 2"
    using floor_divide_of_int_eq [of "a + b" 2, where ?'a = real] by simp
  moreover have "\<lceil>real_of_int (a + b) / 2\<rceil> = - ((- (a + b)) div 2)"
  proof -
    have "- (real_of_int (a + b) / 2) = real_of_int (- (a + b)) / real_of_int 2"
      by (simp add: field_simps)
    then have "\<lfloor>- (real_of_int (a + b) / 2)\<rfloor> = (- (a + b)) div 2"
      by (simp only: floor_divide_of_int_eq)
    then show ?thesis
      by (simp only: ceiling_def)
  qed
  ultimately show ?thesis
    by (simp add: mean_int_def)
qed

text \<open>
  Claim C6, as the claim states it, at two records of one timestamp of which the
  second has a grade and a pace: grade and pace are fields other than the position,
  and folding them by \<open>avg\<close> would give the first record the grade and the pace of the
  second; \<open>AggregateByTimestamp\<close> leaves the first record without either.
\<close>

theorem AggregateByTimestamp_run_counterexample:
  "Grade (fst (AggregateByTimestamp graded_records) ! 0) = None \<and>
   foldl (avg mean_float) (Grade (graded_records ! 0)) (map Grade (tl graded_records)) = Some 3 \<and>
   Pace (fst (AggregateByTimestamp graded_records) ! 0) = None \<and>
   foldl (avg mean_float) (Pace (graded_records ! 0)) (map Pace (tl graded_records)) = Some 4"
  by code_simp

text \<open>
  Claim C6, amended: when the input holds a run (a record \<open>rec\<close> that no record of its
  timestamp precedes, followed by the records \<open>run\<close> of its timestamp and then by the end
  of the input or a record of another timestamp), \<open>AggregateByTimestamp\<close> returns the
  pointer to \<open>rec\<close>, and leaves in \<open>rec\<close> each of the seven fields altitude, cadence,
  speed, distance, heart rate, power and temperature folded from left to right over
  the run by \<open>avg\<close>; the grade and the pace of \<open>rec\<close> are left as they were. \<open>avg\<close> takes
  the other side when one is absent and the mean of the two when both are present:
  the arithmetic mean for a \<^verbatim>\<open>float64\<close> field, the arithmetic mean truncated towards
  zero for an integer field.
\<close>

theorem AggregateByTimestamp_run:
  assumes "pre = [] \<or> Timestamp (last pre) \<noteq> Timestamp rec"
    and "\<forall>r \<in> set run. Timestamp r = Timestamp rec"
    and "rest = [] \<or> Timestamp (hd rest) \<noteq> Timestamp rec"
  shows
    "(let res = AggregateByTimestamp (pre @ rec # run @ rest);
          r = fst res ! length pre
      in length pre \<in> set (snd res) \<and>
         Altitude r = foldl (avg mean_float) (Altitude rec) (map Altitude run) \<and>
         Cadence r = foldl (avg mean_int) (Cadence rec) (map Cadence run) \<and>
         Speed r = foldl (avg mean_float) (Speed rec) (map Speed run) \<and>
         Distance r = foldl (avg mean_float) (Distance rec) (map Distance run) \<and>
         HeartRate r = foldl (avg mean_int) (HeartRate rec) (map HeartRate run) \<and>
         Power r = foldl (avg mean_int) (Power rec) (map Power run) \<and>
         Temperature r = foldl (avg mean_int) (Temperature rec) (map Temperature run) \<and>
         Grade r = Grade rec \<and> Pace r = Pace rec) \<and>
     avg mean None y = y \<and> avg mean x None = x \<and>
     avg mean (Some a) (Some b) = Some (mean a b) \<and>
     mean_float c d = (c + d) / 2 \<and>
     mean_int k l =
       (if 0 \<le> k + l then \<lfloor>real_of_int (k + l) / 2\<rfloor> else \<lceil>real_of_int (k + l) / 2\<rceil>)"
proof -
  let ?orig = "pre @ rec # run @ rest"
  let ?m = "length pre"
  have m: "?m < length ?orig"
    by simp
  have at: "?orig ! ?m = rec"
    by simp
  have start: "?m = 0 \<or> Timestamp (?orig ! (?m - 1)) \<noteq> Timestamp (?orig ! ?m)"
  proof (cases "pre = []")
    case True
    then show ?thesis by simp
  next
    case False
    then have "?orig ! (?m - 1) = last pre"
      by (simp add: nth_append last_conv_nth)
    with assms(1) False show ?thesis
      by (simp only: at) simp
  qed
  have run: "run_after ?orig ?m = run"
    using assms(2,3) by (rule run_after_append)
  have "fst (aggregate_loop ?orig 0 []) ! ?m = foldl aggregate (?orig ! ?m) (run_after ?orig ?m) \<and>
        ?m \<in> set (snd (aggregate_loop ?orig 0 []))"
    using m start by (rule aggregate_loop_run) simp_all
  then have "fst (AggregateByTimestamp ?orig) ! ?m = foldl aggregate rec run"
    and "?m \<in> set (snd (AggregateByTimestamp ?orig))"
    by (simp_all only: AggregateByTimestamp_def at run)
  moreover have "avg mean None y = y" and "avg mean x None = x"
    and "avg mean (Some a) (Some b) = Some (mean a b)"
    by (simp_all add: avg_def split: option.splits)
  ultimately show ?thesis
    by (simp add: Let_def foldl_aggregate_fields foldl_aggregate_derived mean_float_def
          mean_int_truncates)
qed


theorem AggregateByTimestamp_run_witness:
  "list_all (\<lambda>r. Timestamp r = Timestamp (sample 5 None (Some 10) None))
     [sample 5 None (Some 20) None, sample 5 None (Some 30) None] \<and>
   0 \<in> set (snd (AggregateByTimestamp run_records)) \<and>
   Altitude (fst (AggregateByTimestamp run_records) ! 0) = Some 22.5 \<and>
   Grade (fst (AggregateByTimestamp run_records) ! 0) = None \<and>
   Pace (fst (AggregateByTimestamp run_records) ! 0) = None"
proof -
  have h1: "([]::Record list) = [] \<or>
      Timestamp (last []) \<noteq> Timestamp (sample 5 None (Some 10) None)"
    by simp
  have h2: "\<forall>r \<in> set [sample 5 None (Some 20) None, sample 5 None (Some 30) None].
      Timestamp r = Timestamp (sample 5 None (Some 10) None)"
    by (simp add: sample_def)
  have h3: "([]::Record list) = [] \<or>
      Timestamp (hd []) \<noteq> Timestamp (sample 5 None (Some 10) None)"
    by simp
  have "0 \<in> set (snd (AggregateByTimestamp run_records)) \<and>
        Altitude (fst (AggregateByTimestamp run_records) ! 0) = Some 22.5 \<and>
        Grade (fst (AggregateByTimestamp run_records) ! 0) = None \<and>
        Pace (fst (AggregateByTimestamp run_records) ! 0) = None"
    using AggregateByTimestamp_run [OF h1 h2 h3, THEN conjunct1]
    by (simp add: Let_def run_records_def sample_def avg_def mean_float_def)
  with h2 show ?thesis
    by (simp add: list_all_iff)
qed

section \<open>CalculatePace: properties\<close>

lemma pace_loop_length:
  "pace_loop m sport records k = Some out \<Longrightarrow> length out = length records"
proof (induction m sport records k arbitrary: out rule: pace_loop.induct)
  case (1 m sport records k)
  from "1.prems" show ?case
    by (subst (asm) pace_loop.simps) (auto split: if_splits option.splits dest: "1.IH")
qed

lemma pace_loop_below:
  "pace_loop m sport records k = Some out \<Longrightarrow> i < k \<Longrightarrow> out ! i = records ! i"
proof (induction m sport records k arbitrary: out rule: pace_loop.induct)
  case (1 m sport records k)
  from "1.prems" show ?case
    by (subst (asm) pace_loop.simps) (auto split: if_splits option.splits dest: "1.IH")
qed

text \<open>Each round reads the record before it as the rounds before have left it.\<close>

lemma pace_loop_nth:
  "pace_loop m sport records k = Some out \<Longrightarrow> 0 < k \<Longrightarrow> k \<le> i \<Longrightarrow> i < length records \<Longrightarrow>
   pace m sport (out ! (i - 1)) (records ! i) = Some (out ! i)"
proof (induction m sport records k arbitrary: out rule: pace_loop.induct)
  case (1 m sport records k)
  from "1.prems" have k: "k < length records"
    by simp
  from "1.prems"(1) k obtain rec' where
    p: "pace m sport (records ! (k - 1)) (records ! k) = Some rec'"
    and l: "pace_loop m sport (records[k := rec']) (k + 1) = Some out"
    by (subst (asm) pace_loop.simps) (auto split: option.splits)
  show ?case
  proof (cases "i = k")
    case True
    have "out ! k = rec'" and "out ! (k - 1) = records ! (k - 1)"
      using pace_loop_below [OF l, of k] pace_loop_below [OF l, of "k - 1"] k "1.prems"(2)
      by simp_all
    with p True show ?thesis
      by simp
  next
    case False
    with "1.prems" have "k + 1 \<le> i" and "0 < k + 1" and "i < length (records[k := rec'])"
      by simp_all
    from "1.IH" [OF k p l this(2) this(1) this(3)] False show ?thesis
      by simp
  qed
qed

lemma pace_fields:
  assumes "pace m sport prev rec = Some rec'"
  shows "Distance rec' = Distance rec" and "Timestamp rec' = Timestamp rec"
    and "Speed rec' = Speed rec"
  using assms by (auto simp: pace_def Let_def split: if_splits)

lemma pace_loop_fields:
  "pace_loop m sport records k = Some out \<Longrightarrow> i < length records \<Longrightarrow>
   Distance (out ! i) = Distance (records ! i) \<and>
   Timestamp (out ! i) = Timestamp (records ! i) \<and>
   Speed (out ! i) = Speed (records ! i)"
proof (induction m sport records k arbitrary: out rule: pace_loop.induct)
  case (1 m sport records k)
  show ?case
  proof (cases "k < length records")
    case False
    with "1.prems" show ?thesis
      by (subst (asm) pace_loop.simps) simp
  next
    case True
    with "1.prems"(1) obtain rec' where
      p: "pace m sport (records ! (k - 1)) (records ! k) = Some rec'"
      and l: "pace_loop m sport (records[k := rec']) (k + 1) = Some out"
      by (subst (asm) pace_loop.simps) (auto split: option.splits)
    from "1.IH" [OF True p l] "1.prems"(2)
    have "Distance (out ! i) = Distance (records[k := rec'] ! i) \<and>
          Timestamp (out ! i) = Timestamp (records[k := rec'] ! i) \<and>
          Speed (out ! i) = Speed (records[k := rec'] ! i)"
      by simp
    with pace_fields [OF p] True show ?thesis
      by (cases "i = k") simp_all
  qed
qed

lemma pace_speed:
  assumes "pace IsConsideredMoving sport prev rec = Some rec'"
    and "Distance rec \<noteq> None" and "\<not> IsZero (Timestamp rec)"
    and "Distance prev \<noteq> None" and "\<not> IsZero (Timestamp prev)"
    and "IsConsideredMoving sport (Speed rec)" and "Speed rec = Some s"
  shows "Pace rec' = Some (fmul (fmul (fdiv 1 (fmul s (round64 3.6))) 60) 60)"
  using assms by (auto simp: pace_def Let_def split: if_splits)

text \<open>
  Claim C2, as the claim states it, at a record with speed 10 m/s whose pace the
  stage computes: the pace is not 360.
\<close>

theorem CalculatePace_speed_10_counterexample:
  "CalculatePace always_moving ''running'' pace_records \<noteq> None \<and>
   Pace (the (CalculatePace always_moving ''running'' pace_records) ! 1) \<noteq> Some 360"
  by code_simp

text \<open>
  Claim C2, amended: for a record \<open>i \<ge> 1\<close> whose speed \<open>s\<close> is present, with both
  distances present, both timestamps not zero and the moving predicate true,
  \<open>CalculatePace\<close> sets the pace to the value that \<^verbatim>\<open>float64\<close> computes for
  \<open>(1 / (s * 3.6)) * 60 * 60\<close>, every operation rounded. At 10 m/s that is
  \<open>100 - 2 ^ (- 46)\<close>, the double that prints as 99.99999999999999.
\<close>

theorem CalculatePace_speed:
  assumes "CalculatePace IsConsideredMoving sport records = Some out"
    and "0 < i" and "i < length records"
    and "Distance (records ! i) \<noteq> None" and "\<not> IsZero (Timestamp (records ! i))"
    and "Distance (records ! (i - 1)) \<noteq> None"
    and "\<not> IsZero (Timestamp (records ! (i - 1)))"
    and "IsConsideredMoving sport (Speed (records ! i))"
    and "Speed (records ! i) = Some s"
  shows "Pace (out ! i) = Some (fmul (fmul (fdiv 1 (fmul s (round64 3.6))) 60) 60) \<and>
         (s = 10 \<longrightarrow> Pace (out ! i) = Some (100 - 1 / 2 ^ 46))"
proof -
  have l: "pace_loop IsConsideredMoving sport records 1 = Some out"
    using assms(1) by (simp add: CalculatePace_def)
  have step: "pace IsConsideredMoving sport (out ! (i - 1)) (records ! i) = Some (out ! i)"
    using pace_loop_nth [OF l, of i] assms(2,3) by simp
  have "i - 1 < length records"
    using assms(3) by simp
  from pace_loop_fields [OF l this]
  have prev: "Distance (out ! (i - 1)) \<noteq> None" "\<not> IsZero (Timestamp (out ! (i - 1)))"
    using assms(6,7) by simp_all
  have p: "Pace (out ! i) = Some (fmul (fmul (fdiv 1 (fmul s (round64 3.6))) 60) 60)"
    using step assms(4,5) prev assms(8,9) by (rule pace_speed)
  have "fmul (fmul (fdiv 1 (fmul 10 (round64 3.6))) 60) 60 = 100 - 1 / 2 ^ 46"
    by code_simp
  with p show ?thesis
    by auto
qed

theorem CalculatePace_speed_witness:
  "CalculatePace always_moving ''running'' pace_records \<noteq> None \<and>
   0 < (1::nat) \<and> 1 < length pace_records \<and>
   Distance (pace_records ! 1) \<noteq> None \<and> \<not> IsZero (Timestamp (pace_records ! 1)) \<and>
   Distance (pace_records ! (1 - 1)) \<noteq> None \<and>
   \<not> IsZero (Timestamp (pace_records ! (1 - 1))) \<and>
   always_moving ''running'' (Speed (pace_records ! 1)) \<and>
   Speed (pace_records ! 1) = Some 10 \<and>
   Pace (the (CalculatePace always_moving ''running'' pace_records) ! 1) =
     Some (100 - 1 / 2 ^ 46)"
proof -
  have h0: "CalculatePace always_moving ''running'' pace_records \<noteq> None"
    by code_simp
  then obtain out where o: "CalculatePace always_moving ''running'' pace_records = Some out"
    by blast
  have h1: "0 < (1::nat)" and h2: "1 < length pace_records"
    and h3: "Distance (pace_records ! 1) \<noteq> None"
    and h4: "\<not> IsZero (Timestamp (pace_records ! 1))"
    and h5: "Distance (pace_records ! (1 - 1)) \<noteq> None"
    and h6: "\<not> IsZero (Timestamp (pace_records ! (1 - 1)))"
    and h7: "always_moving ''running'' (Speed (pace_records ! 1))"
    and h8: "Speed (pace_records ! 1) = Some 10"
    by (simp_all add: pace_records_def sample_def IsZero_def always_moving_def)
  from CalculatePace_speed [OF o h1 h2 h3 h4 h5 h6 h7 h8]
  have "Pace (out ! 1) = Some (100 - 1 / 2 ^ 46)"
    by blast
  then have "Pace (the (CalculatePace always_moving ''running'' pace_records) ! 1) =
     Some (100 - 1 / 2 ^ 46)"
    by (simp add: o)
  with h0 h1 h2 h3 h4 h5 h6 h7 h8 show ?thesis
    by blast
qed

section \<open>CalculateDistanceAndSpeed: properties\<close>

lemma length_distance_and_speed_loop [simp]:
  "length (distance_and_speed_loop V records k) = length records"
  by (induction V records k rule: distance_and_speed_loop.induct)
     (subst distance_and_speed_loop.simps, simp)

lemma distance_and_speed_loop_below:
  "i < k \<Longrightarrow> distance_and_speed_loop V records k ! i = records ! i"
proof (induction V records k rule: distance_and_speed_loop.induct)
  case (1 V records k)
  then show ?case
    by (subst distance_and_speed_loop.simps) simp
qed

lemma distance_and_speed_loop_nth:
  "0 < k \<Longrightarrow> k \<le> i \<Longrightarrow> i < length records \<Longrightarrow>
   distance_and_speed_loop V records k ! i =
     distance_and_speed V (distance_and_speed_loop V records k ! (i - 1)) (records ! i)"
proof (induction V records k rule: distance_and_speed_loop.induct)
  case (1 V records k)
  let ?records' = "records[k := distance_and_speed V (records ! (k - 1)) (records ! k)]"
  have unf: "distance_and_speed_loop V records k = distance_and_speed_loop V ?records' (k + 1)"
    using "1.prems" by (subst distance_and_speed_loop.simps) simp
  show ?case
  proof (cases "i = k")
    case True
    then show ?thesis
      using "1.prems" by (simp add: unf distance_and_speed_loop_below)
  next
    case False
    then show ?thesis
      using "1.prems" "1.IH" by (simp add: unf)
  qed
qed

lemma point_distance_fields [simp]:
  "Timestamp (snd (point_distance V prev rec)) = Timestamp rec"
  "PositionLat (snd (point_distance V prev rec)) = PositionLat rec"
  "PositionLong (snd (point_distance V prev rec)) = PositionLong rec"
  "Speed (snd (point_distance V prev rec)) = Speed rec"
  by (simp_all add: point_distance_def Let_def)

lemma point_speed_fields [simp]:
  "Timestamp (point_speed pd prev rec) = Timestamp rec"
  "PositionLat (point_speed pd prev rec) = PositionLat rec"
  "PositionLong (point_speed pd prev rec) = PositionLong rec"
  "Distance (point_speed pd prev rec) = Distance rec"
  by (simp_all add: point_speed_def Let_def)

lemma distance_and_speed_eq:
  "distance_and_speed V prev rec =
     point_speed (fst (point_distance V prev rec)) prev (snd (point_distance V prev rec))"
  by (simp add: distance_and_speed_def split: prod.splits)

lemma distance_and_speed_fields [simp]:
  "Timestamp (distance_and_speed V prev rec) = Timestamp rec"
  "PositionLat (distance_and_speed V prev rec) = PositionLat rec"
  "PositionLong (distance_and_speed V prev rec) = PositionLong rec"
  by (simp_all add: distance_and_speed_eq)

lemma distance_and_speed_loop_fields:
  "i < length records \<Longrightarrow>
   Timestamp (distance_and_speed_loop V records k ! i) = Timestamp (records ! i) \<and>
   PositionLat (distance_and_speed_loop V records k ! i) = PositionLat (records ! i) \<and>
   PositionLong (distance_and_speed_loop V records k ! i) = PositionLong (records ! i)"
proof (induction V records k rule: distance_and_speed_loop.induct)
  case (1 V records k)
  then show ?case
    by (subst (1 2 3) distance_and_speed_loop.simps) (auto simp: nth_list_update)
qed

lemma fst_point_distance: "fst (point_distance V prev rec) = point_delta V prev rec"
  by (auto simp: point_distance_def point_delta_def Let_def)

text \<open>
  Claim C3: for every \<open>i \<ge> 1\<close>, \<open>CalculateDistanceAndSpeed\<close> sets the distance of
  record \<open>i\<close> to the distance of record \<open>i - 1\<close> as the stage has left it (0 if
  absent) plus the geodesic distance of the two positions, exactly when record \<open>i\<close>
  has no distance and both records have latitude and longitude; otherwise the
  distance of record \<open>i\<close> is left as it is.
\<close>

theorem CalculateDistanceAndSpeed_distance:
  assumes "0 < i" and "i < length records"
  shows "Distance (CalculateDistanceAndSpeed V records ! i) =
     (if Distance (records ! i) = None \<and>
         PositionLat (records ! i) \<noteq> None \<and> PositionLong (records ! i) \<noteq> None \<and>
         PositionLat (records ! (i - 1)) \<noteq> None \<and> PositionLong (records ! (i - 1)) \<noteq> None
      then Some ((case Distance (CalculateDistanceAndSpeed V records ! (i - 1)) of
                    Some d \<Rightarrow> d | None \<Rightarrow> 0) +
                 V (the (PositionLat (records ! i))) (the (PositionLong (records ! i)))
                   (the (PositionLat (records ! (i - 1)))) (the (PositionLong (records ! (i - 1)))))
      else Distance (records ! i))"
proof -
  let ?out = "CalculateDistanceAndSpeed V records"
  have step: "?out ! i = distance_and_speed V (?out ! (i - 1)) (records ! i)"
    using assms by (simp add: CalculateDistanceAndSpeed_def distance_and_speed_loop_nth)
  have prev: "PositionLat (?out ! (i - 1)) = PositionLat (records ! (i - 1))"
    "PositionLong (?out ! (i - 1)) = PositionLong (records ! (i - 1))"
    using assms by (simp_all add: CalculateDistanceAndSpeed_def distance_and_speed_loop_fields)
  have "Distance (distance_and_speed V prev rec) = Distance (snd (point_distance V prev rec))"
    for prev rec
    by (simp add: distance_and_speed_eq)
  then have "Distance (?out ! i) = Distance (snd (point_distance V (?out ! (i - 1)) (records ! i)))"
    by (simp add: step)
  then show ?thesis
    using prev by (simp add: point_distance_def Let_def)
qed

text \<open>
  Claim C5: for every \<open>i \<ge> 1\<close>, \<open>CalculateDistanceAndSpeed\<close> sets the speed of
  record \<open>i\<close> to the point delta divided by the seconds elapsed since record \<open>i - 1\<close>,
  exactly when record \<open>i\<close> has no speed, the point delta is positive and the elapsed
  time is positive; otherwise (so also when the elapsed time is zero or negative) the
  speed is left as it is. The quotient is taken only under a positive divisor.
\<close>

theorem CalculateDistanceAndSpeed_speed:
  assumes "0 < i" and "i < length records"
  shows "Speed (CalculateDistanceAndSpeed V records ! i) =
     (let pointDistance = point_delta V (CalculateDistanceAndSpeed V records ! (i - 1)) (records ! i);
          elapsed = Seconds (Sub (Timestamp (records ! i)) (Timestamp (records ! (i - 1))))
      in if Speed (records ! i) = None \<and> pointDistance > 0 \<and> elapsed > 0
         then Some (pointDistance / elapsed)
         else Speed (records ! i))"
proof -
  let ?out = "CalculateDistanceAndSpeed V records"
  have step: "?out ! i = distance_and_speed V (?out ! (i - 1)) (records ! i)"
    using assms by (simp add: CalculateDistanceAndSpeed_def distance_and_speed_loop_nth)
  have prev: "Timestamp (?out ! (i - 1)) = Timestamp (records ! (i - 1))"
    using assms by (simp add: CalculateDistanceAndSpeed_def distance_and_speed_loop_fields)
  have "Speed (point_speed pd prev rec) =
          (let elapsed = Seconds (Sub (Timestamp rec) (Timestamp prev))
           in if Speed rec = None \<and> pd > 0 \<and> elapsed > 0 then Some (pd / elapsed)
              else Speed rec)" for pd prev rec
    by (simp add: point_speed_def Let_def)
  then show ?thesis
    using prev by (simp add: step distance_and_speed_eq fst_point_distance Let_def)
qed


theorem CalculateDistanceAndSpeed_distance_witness:
  "0 < (1::nat) \<and> 1 < length located_records \<and>
   Distance (CalculateDistanceAndSpeed taxicab located_records ! 1) = Some 12"
proof -
  have h1: "0 < (1::nat)" and h2: "1 < length located_records"
    by (simp_all add: located_records_def)
  have prev: "CalculateDistanceAndSpeed taxicab located_records ! (1 - 1) = located_records ! 0"
    by (simp add: CalculateDistanceAndSpeed_def distance_and_speed_loop_below)
  have "Distance (CalculateDistanceAndSpeed taxicab located_records ! 1) = Some 12"
    using CalculateDistanceAndSpeed_distance [OF h1 h2, of taxicab] prev
    by (simp add: located_records_def located_def taxicab_def)
  with h1 h2 show ?thesis
    by blast
qed

theorem CalculateDistanceAndSpeed_speed_witness:
  "0 < (1::nat) \<and> 1 < length located_records \<and>
   Speed (CalculateDistanceAndSpeed taxicab located_records ! 1) = Some 3.5"
proof -
  have h1: "0 < (1::nat)" and h2: "1 < length located_records"
    by (simp_all add: located_records_def)
  have prev: "CalculateDistanceAndSpeed taxicab located_records ! (1 - 1) = located_records ! 0"
    by (simp add: CalculateDistanceAndSpeed_def distance_and_speed_loop_below)
  have "Speed (CalculateDistanceAndSpeed taxicab located_records ! 1) = Some 3.5"
    using CalculateDistanceAndSpeed_speed [OF h1 h2, of taxicab] prev
    by (simp add: located_records_def located_def taxicab_def point_delta_def
          Seconds_def Sub_def minDuration_def maxDuration_def)
  with h1 h2 show ?thesis
    by blast
qed

section \<open>SmoothingElev: properties\<close>

lemma apply_all_smoothingElevDistance:
  "0 < smoothingElevDistance o' \<Longrightarrow> 0 < smoothingElevDistance (apply_all opts o')"
proof (induction opts arbitrary: o')
  case Nil
  then show ?case by simp
next
  case (Cons opt opts)
  have "0 < smoothingElevDistance (apply_opt opt o')"
    using Cons.prems by (cases opt) auto
  then show ?case
    using Cons.IH by simp
qed

lemma New_smoothingElevDistance: "0 < smoothingElevDistance (New opts)"
  by (simp add: New_def defaultOptions_def apply_all_smoothingElevDistance)

lemma smoothing_window_counter:
  "counter \<le> snd (smoothing_window p records i j sum_alt counter)"
proof (induction p records i j sum_alt counter rule: smoothing_window.induct)
  case (1 p records i j sum_alt counter)
  show ?case
  proof (cases "j \<ge> 0")
    case False
    then show ?thesis
      by (subst smoothing_window.simps) simp
  next
    case True
    note j = this
    let ?prev = "records ! nat j"
    show ?thesis
    proof (cases "Distance ?prev = None \<or> Altitude ?prev = None")
      case True
      with j "1.IH"(1) show ?thesis
        by (subst smoothing_window.simps) (simp add: Let_def)
    next
      case False
      note present = this
      let ?d = "the (Distance (records ! i)) - the (Distance ?prev)"
      show ?thesis
      proof (cases "?d > smoothingElevDistance p")
        case True
        with j present show ?thesis
          by (subst smoothing_window.simps) (auto simp: Let_def)
      next
        case False
        have "counter + 1 \<le> snd (smoothing_window p records i (j - 1)
                (sum_alt + the (Altitude ?prev)) (counter + 1))"
          using "1.IH"(2) [OF j refl present refl False] .
        with j present False show ?thesis
          by (subst smoothing_window.simps) (auto simp: Let_def)
      qed
    qed
  qed
qed

text \<open>
  Claim C7: the smoothing distance of a preprocessor is positive whatever the
  options given to \<open>New\<close>, and whenever \<open>SmoothingElev\<close> takes the quotient for a
  record (one with distance and altitude present), whatever the state of the other
  records, the counter of the window is at least 1.
\<close>

theorem SmoothingElev_counter:
  assumes "Distance (records ! i) \<noteq> None" and "Altitude (records ! i) \<noteq> None"
  shows "0 < smoothingElevDistance (New opts) \<and>
         1 \<le> snd (smoothing_window (New opts) records i (int i) 0 0)"
proof -
  let ?p = "New opts"
  have pos: "0 < smoothingElevDistance ?p"
    by (rule New_smoothingElevDistance)
  have "smoothing_window ?p records i (int i) 0 0 =
        smoothing_window ?p records i (int i - 1) (0 + the (Altitude (records ! i))) (0 + 1)"
    using assms pos by (subst smoothing_window.simps) (auto simp: Let_def)
  moreover have "0 + 1 \<le> snd (smoothing_window ?p records i (int i - 1)
                   (0 + the (Altitude (records ! i))) (0 + 1))"
    by (rule smoothing_window_counter)
  ultimately show ?thesis
    using pos by simp
qed

theorem SmoothingElev_counter_witness:
  "Distance (ramp_records ! 2) \<noteq> None \<and> Altitude (ramp_records ! 2) \<noteq> None \<and>
   0 < smoothingElevDistance (New [WithSmoothingElevationDistance (- 5)]) \<and>
   1 \<le> snd (smoothing_window (New [WithSmoothingElevationDistance (- 5)])
              ramp_records 2 (int 2) 0 0)"
proof -
  have h1: "Distance (ramp_records ! 2) \<noteq> None" and h2: "Altitude (ramp_records ! 2) \<noteq> None"
    by (simp_all add: ramp_records_def sample_def)
  show ?thesis
    using h1 h2 SmoothingElev_counter [OF h1 h2, of "[WithSmoothingElevationDistance (- 5)]"]
    by blast
qed

lemma length_smoothing_loop [simp]: "length (smoothing_loop p records k) = length records"
  by (induction p records k rule: smoothing_loop.induct)
     (subst smoothing_loop.simps, simp)

lemma smoothing_loop_below: "i < k \<Longrightarrow> smoothing_loop p records k ! i = records ! i"
proof (induction p records k rule: smoothing_loop.induct)
  case (1 p records k)
  then show ?case
    by (subst smoothing_loop.simps) simp
qed

lemma take_smoothing_loop: "take k (smoothing_loop p records k) = take k records"
  by (rule nth_equalityI) (simp_all add: smoothing_loop_below)

lemma smoothing_loop_nth:
  "k \<le> i \<Longrightarrow> i < length records \<Longrightarrow>
   smoothing_loop p records k ! i =
     smoothing p (take i (smoothing_loop p records k) @ drop i records) i"
proof (induction p records k rule: smoothing_loop.induct)
  case (1 p records k)
  let ?records' = "records[k := smoothing p records k]"
  have unf: "smoothing_loop p records k = smoothing_loop p ?records' (k + 1)"
    using "1.prems" by (subst smoothing_loop.simps) simp
  show ?case
  proof (cases "i = k")
    case True
    have "take k (smoothing_loop p ?records' (k + 1)) = take k ?records'"
      by (rule nth_equalityI) (simp_all add: smoothing_loop_below)
    then have "take k (smoothing_loop p records k) @ drop k records = records"
      by (simp add: unf)
    moreover have "smoothing_loop p records k ! k = smoothing p records k"
      using "1.prems" True by (simp add: unf smoothing_loop_below)
    ultimately show ?thesis
      using True by simp
  next
    case False
    with "1.prems" have "k + 1 \<le> i" and "k < length records"
      by simp_all
    with "1.IH" "1.prems" False show ?thesis
      by (simp add: unf)
  qed
qed

text \<open>
  Claim C9: \<open>SmoothingElev\<close> smooths progressively. The record it leaves at \<open>i\<close> is the
  one the loop body computes over the slice whose records before \<open>i\<close> are already
  smoothed (those of the result) and whose records from \<open>i\<close> on are those of the
  input; and this is not smoothing over a snapshot of the input: on the three records
  of \<open>ramp_records\<close> the two differ.
\<close>

theorem SmoothingElev_progressive:
  "(\<forall>i < length records.
      SmoothingElev p records ! i =
        smoothing p (take i (SmoothingElev p records) @ drop i records) i) \<and>
   SmoothingElev defaultOptions ramp_records \<noteq>
     SmoothingElev_snapshot defaultOptions ramp_records"
proof
  show "\<forall>i < length records.
      SmoothingElev p records ! i =
        smoothing p (take i (SmoothingElev p records) @ drop i records) i"
    by (simp add: SmoothingElev_def smoothing_loop_nth)
  have "map Altitude (SmoothingElev defaultOptions ramp_records) = [Some 0, Some 5, Some (25 / 3)]"
    by code_simp
  moreover
  have "map Altitude (SmoothingElev_snapshot defaultOptions ramp_records) = [Some 0, Some 5, Some 10]"
    by code_simp
  ultimately show "SmoothingElev defaultOptions ramp_records \<noteq>
     SmoothingElev_snapshot defaultOptions ramp_records"
    by auto
qed

theorem SmoothingElev_progressive_witness:
  "2 < length ramp_records \<and>
   SmoothingElev defaultOptions ramp_records ! 2 =
     smoothing defaultOptions
       (take 2 (SmoothingElev defaultOptions ramp_records) @ drop 2 ramp_records) 2 \<and>
   Altitude (SmoothingElev defaultOptions ramp_records ! 2) = Some (25 / 3) \<and>
   Altitude (SmoothingElev_snapshot defaultOptions ramp_records ! 2) = Some 10"
proof -
  have h: "2 < length ramp_records"
    by (simp add: ramp_records_def)
  have "SmoothingElev defaultOptions ramp_records ! 2 =
     smoothing defaultOptions
       (take 2 (SmoothingElev defaultOptions ramp_records) @ drop 2 ramp_records) 2"
    using SmoothingElev_progressive [of ramp_records defaultOptions] h by blast
  moreover have "Altitude (SmoothingElev defaultOptions ramp_records ! 2) = Some (25 / 3)"
    by code_simp
  moreover have "Altitude (SmoothingElev_snapshot defaultOptions ramp_records ! 2) = Some 10"
    by code_simp
  ultimately show ?thesis
    using h by blast
qed

section \<open>CalculateGrade: properties\<close>

text \<open>The inner loop, from \<open>j\<close> on, in terms of the records that it has yet to read.\<close>

lemma grade_window_eq:
  "grade_window p records i j run rise =
     (let w = takeWhile (in_grade_window p (records ! i)) (filter present (drop j records)) in
      if w = [] then (run, rise)
      else (fsub (the (Distance (last w))) (the (Distance (records ! i))),
            fsub (the (Altitude (last w))) (the (Altitude (records ! i)))))"
proof (induction p records i j run rise rule: grade_window.induct)
  case (1 p records i j run rise)
  show ?case
  proof (cases "j < length records")
    case False
    then show ?thesis
      by (subst grade_window.simps) simp
  next
    case True
    note j = this
    let ?next = "records ! j"
    have drop: "drop j records = ?next # drop (j + 1) records"
      using j by (simp add: Cons_nth_drop_Suc)
    show ?thesis
    proof (cases "Distance ?next = None \<or> Altitude ?next = None")
      case True
      then have "\<not> present ?next"
        by (auto simp: present_def)
      with j True "1.IH"(1) [OF j refl True] show ?thesis
        by (subst grade_window.simps) (simp add: drop Let_def)
    next
      case False
      note pres = this
      then have p: "present ?next"
        by (auto simp: present_def)
      let ?d = "fsub (the (Distance ?next)) (the (Distance (records ! i)))"
      show ?thesis
      proof (cases "?d > calculateGradeDistance p")
        case True
        then have "\<not> in_grade_window p (records ! i) ?next"
          by (simp add: in_grade_window_def)
        with j pres p True show ?thesis
          by (subst grade_window.simps) (auto simp: drop Let_def)
      next
        case False
        then have w: "in_grade_window p (records ! i) ?next"
          by (simp add: in_grade_window_def)
        note IH = "1.IH"(2) [OF j refl pres refl False]
        have "grade_window p records i j run rise =
              grade_window p records i (j + 1) ?d
                (fsub (the (Altitude ?next)) (the (Altitude (records ! i))))"
          using j pres False by (subst grade_window.simps) (auto simp: Let_def)
        with IH p w show ?thesis
          by (simp add: drop Let_def)
      qed
    qed
  qed
qed

lemma Grade_grade:
  assumes "Distance (records ! i) \<noteq> None" and "Altitude (records ! i) \<noteq> None"
  shows "Grade (grade p records i) =
     (case grade_spec p records i of Some g \<Rightarrow> Some g | None \<Rightarrow> Grade (records ! i))"
  using assms
  by (auto simp: grade_def grade_spec_def grade_candidates_def grade_window_eq Let_def)

text \<open>The loop body at \<open>i\<close> reads the record at \<open>i\<close> and the records after it.\<close>

lemma grade_update_below:
  assumes "k < i" and "i < length records"
  shows "grade p (records[k := r]) i = grade p records i"
proof -
  have "drop (i + 1) (records[k := r]) = drop (i + 1) records"
    using assms by (simp add: drop_update_cancel)
  moreover have "records[k := r] ! i = records ! i"
    using assms by simp
  ultimately have "grade_window p (records[k := r]) i (i + 1) 0 0 =
        grade_window p records i (i + 1) 0 0"
    by (simp only: grade_window_eq)
  moreover have "records[k := r] ! i = records ! i"
    using assms by simp
  ultimately show ?thesis
    by (simp only: grade_def)
qed

lemma length_grade_loop [simp]: "length (grade_loop p records k) = length records"
  by (induction p records k rule: grade_loop.induct)
     (subst grade_loop.simps, simp)

lemma grade_loop_below: "i < k \<Longrightarrow> grade_loop p records k ! i = records ! i"
proof (induction p records k rule: grade_loop.induct)
  case (1 p records k)
  then show ?case
    by (subst grade_loop.simps) simp
qed

lemma grade_loop_nth:
  "k \<le> i \<Longrightarrow> i < length records \<Longrightarrow> grade_loop p records k ! i = grade p records i"
proof (induction p records k rule: grade_loop.induct)
  case (1 p records k)
  let ?records' = "records[k := grade p records k]"
  have unf: "grade_loop p records k = grade_loop p ?records' (k + 1)"
    using "1.prems" by (subst grade_loop.simps) simp
  show ?case
  proof (cases "i = k")
    case True
    then show ?thesis
      using "1.prems" by (simp add: unf grade_loop_below)
  next
    case False
    with "1.prems" have "k + 1 \<le> i" and "k < length records" and "k < i"
      by simp_all
    with "1.IH" "1.prems" show ?thesis
      by (simp add: unf grade_update_below)
  qed
qed

text \<open>
  Claim C4: for every record with distance and altitude present, \<open>CalculateGrade\<close>
  assigns the grade \<open>rise / run * 100\<close> of the last candidate before the first one
  whose distance gap exceeds the grade window, and assigns nothing (the grade stays
  as it was) when there is no such candidate or the rise or the run is zero. The gap,
  the rise, the run and the grade are those that \<^verbatim>\<open>float64\<close> computes.
\<close>

theorem CalculateGrade_last_in_window:
  assumes "i < length records"
    and "Distance (records ! i) \<noteq> None" and "Altitude (records ! i) \<noteq> None"
  shows "Grade (CalculateGrade p records ! i) =
     (case grade_spec p records i of Some g \<Rightarrow> Some g | None \<Rightarrow> Grade (records ! i))"
  using assms by (simp add: CalculateGrade_def grade_loop_nth Grade_grade)

theorem CalculateGrade_last_in_window_witness:
  "0 < length climb_records \<and>
   Distance (climb_records ! 0) \<noteq> None \<and> Altitude (climb_records ! 0) \<noteq> None \<and>
   grade_candidates (New [WithCalculateDistance 25]) climb_records 0 =
     [climb_records ! 1, climb_records ! 2] \<and>
   Grade (CalculateGrade (New [WithCalculateDistance 25]) climb_records ! 0) = Some 15 \<and>
   0 < length boundary_records \<and>
   Distance (boundary_records ! 0) \<noteq> None \<and> Altitude (boundary_records ! 0) \<noteq> None \<and>
   grade_candidates defaultOptions boundary_records 0 =
     [boundary_records ! 1, boundary_records ! 2] \<and>
   Grade (CalculateGrade defaultOptions boundary_records ! 0) = Some 8"
proof -
  have h1: "0 < length climb_records"
    and h2: "Distance (climb_records ! 0) \<noteq> None"
    and h3: "Altitude (climb_records ! 0) \<noteq> None"
    by (simp_all add: climb_records_def sample_def)
  have c: "grade_candidates (New [WithCalculateDistance 25]) climb_records 0 =
     [climb_records ! 1, climb_records ! 2]"
    by code_simp
  have s: "grade_spec (New [WithCalculateDistance 25]) climb_records 0 = Some 15"
    by code_simp
  have g: "Grade (CalculateGrade (New [WithCalculateDistance 25]) climb_records ! 0) = Some 15"
    using CalculateGrade_last_in_window [OF h1 h2 h3, of "New [WithCalculateDistance 25]"]
    by (simp add: s)
  have k1: "0 < length boundary_records"
    and k2: "Distance (boundary_records ! 0) \<noteq> None"
    and k3: "Altitude (boundary_records ! 0) \<noteq> None"
    by (simp_all add: boundary_records_def sample_def)
  have d: "grade_candidates defaultOptions boundary_records 0 =
     [boundary_records ! 1, boundary_records ! 2]"
    by code_simp
  have t: "grade_spec defaultOptions boundary_records 0 = Some 8"
    by code_simp
  have "Grade (CalculateGrade defaultOptions boundary_records ! 0) = Some 8"
    using CalculateGrade_last_in_window [OF k1 k2 k3, of defaultOptions]
    by (simp add: t)
  with h1 h2 h3 c g k1 k2 k3 d show ?thesis
    by blast
qed

section \<open>Decoding: properties\<close>

lemma decimal_ge: "n \<le> decimal n cs"
proof (induction cs arbitrary: n)
  case Nil
  show ?case by simp
next
  case (Cons c cs)
  have "n \<le> n * 10 + digit_of c"
    by simp
  also have "\<dots> \<le> decimal (n * 10 + digit_of c) cs"
    by (rule Cons.IH)
  finally show ?case
    by simp
qed

lemma digit_of_le: "is_digit c \<Longrightarrow> digit_of c \<le> 9"
  unfolding is_digit_def digit_of_def by linarith

text \<open>On decimal digits \<open>parse_digits\<close> computes the number, or reports that it is out of range.\<close>

lemma parse_digits_eq:
  assumes "\<forall>c \<in> set cs. is_digit c" and "maxVal < 2 ^ 64" and "n \<le> maxVal"
  shows "parse_digits s0 maxVal n cs =
           (if maxVal < decimal n cs then Inl (ErrRange s0) else Inr (decimal n cs))"
  using assms
proof (induction cs arbitrary: n)
  case Nil
  then show ?case by simp
next
  case (Cons c cs)
  let ?d = "digit_of c"
  have c: "is_digit c" and cs: "\<forall>c \<in> set cs. is_digit c"
    using Cons.prems(1) by simp_all
  have d: "?d \<le> 9"
    using c by (rule digit_of_le)
  have ge: "n * 10 + ?d \<le> decimal n (c # cs)"
    using decimal_ge [of "n * 10 + ?d" cs] by simp
  show ?case
  proof (cases "n \<ge> maxUint64 div 10 + 1")
    case True
    then have "(2::nat) ^ 64 \<le> n * 10 + ?d"
      by (simp add: maxUint64_def)
    with ge Cons.prems(2) have "maxVal < decimal n (c # cs)"
      by linarith
    with True c show ?thesis
      by simp
  next
    case False
    then have n10: "n * 10 < 2 ^ 64"
      by (simp add: maxUint64_def)
    show ?thesis
    proof (cases "n * 10 + ?d < 2 ^ 64")
      case True
      note small = this
      show ?thesis
      proof (cases "n * 10 + ?d > maxVal")
        case True
        with ge have "maxVal < decimal n (c # cs)"
          by linarith
        with True False c n10 small show ?thesis
          by (simp add: Let_def)
      next
        case False
        then have "n * 10 + ?d \<le> maxVal"
          by simp
        from Cons.IH [OF cs Cons.prems(2) this] \<open>\<not> maxUint64 div 10 + 1 \<le> n\<close> c n10 small False
        show ?thesis
          by (simp add: Let_def)
      qed
    next
      case False
      then have big: "2 ^ 64 \<le> n * 10 + ?d"
        by simp
      with ge Cons.prems(2) have over: "maxVal < decimal n (c # cs)"
        by linarith
      have "(n * 10 + ?d) mod 2 ^ 64 = n * 10 + ?d - 2 ^ 64"
        using big n10 d by (simp add: le_mod_geq)
      with d have "(n * 10 + ?d) mod 2 ^ 64 < n * 10"
        using big by simp
      with over \<open>\<not> maxUint64 div 10 + 1 \<le> n\<close> c n10 show ?thesis
        by (simp add: Let_def)
    qed
  qed
qed

lemma ParseUint_16:
  assumes "s \<noteq> []" and "\<forall>c \<in> set s. is_digit c" and "2 ^ 16 \<le> decimal_value s"
  shows "ParseUint s 16 = Inl (ErrRange s)"
proof -
  have "parse_digits s 65535 0 s =
          (if 65535 < decimal 0 s then Inl (ErrRange s) else Inr (decimal 0 s))"
    using assms(2) by (rule parse_digits_eq) simp_all
  with assms(1,3) show ?thesis
    by (simp add: ParseUint_def decimal_value_def)
qed

lemma ParseUint_32:
  assumes "s \<noteq> []" and "\<forall>c \<in> set s. is_digit c" and "2 ^ 32 \<le> decimal_value s"
  shows "ParseUint s 32 = Inl (ErrRange s)"
proof -
  have "parse_digits s 4294967295 0 s =
          (if 4294967295 < decimal 0 s then Inl (ErrRange s) else Inr (decimal 0 s))"
    using assms(2) by (rule parse_digits_eq) simp_all
  with assms(1,3) show ?thesis
    by (simp add: ParseUint_def decimal_value_def)
qed

text \<open>
  Claim C10: when the loop of \<open>Device.UnmarshalXML\<close> or of \<open>Version.UnmarshalXML\<close>
  reads character data that is a decimal number beyond the width of the field named
  by \<open>targetCharData\<close> (32 bits for \<open>UnitId\<close>, 16 bits for \<open>ProductID\<close> and for the
  four fields of a version), the call returns the range error of \<open>ParseUint\<close> at
  once: the field is not assigned and no further token is read. And when the nested
  \<open>Version.UnmarshalXML\<close> returns an error, \<open>Device.UnmarshalXML\<close> returns that error
  and does not assign the version.
\<close>

theorem UnmarshalXML_out_of_range:
  assumes "elem \<noteq> []" and "\<forall>c \<in> set elem. is_digit c"
  shows
    "(2 ^ 32 \<le> decimal_value elem \<longrightarrow>
        Device_loop se ''UnitId'' d (CharData elem # dec) = (Some (ErrRange elem), d, dec)) \<and>
     (2 ^ 16 \<le> decimal_value elem \<longrightarrow>
        Device_loop se ''ProductID'' d (CharData elem # dec) = (Some (ErrRange elem), d, dec)) \<and>
     (2 ^ 16 \<le> decimal_value elem \<longrightarrow>
        target \<in> {''VersionMajor'', ''VersionMinor'', ''BuildMajor'', ''BuildMinor''} \<longrightarrow>
        Version_loop se target v (CharData elem # dec) = (Some (ErrRange elem), v, dec)) \<and>
     (Local name = ''Version'' \<longrightarrow>
        Version_UnmarshalXML zero_Version dec name = (Some err, v', dec') \<longrightarrow>
        Device_loop se target d (StartElement name attr # dec) = (Some err, d, dec'))"
proof (intro conjI impI)
  assume "2 ^ 32 \<le> decimal_value elem"
  with assms have "ParseUint elem 32 = Inl (ErrRange elem)"
    by (rule ParseUint_32)
  then show "Device_loop se ''UnitId'' d (CharData elem # dec) = (Some (ErrRange elem), d, dec)"
    by simp
next
  assume "2 ^ 16 \<le> decimal_value elem"
  with assms have "ParseUint elem 16 = Inl (ErrRange elem)"
    by (rule ParseUint_16)
  then show "Device_loop se ''ProductID'' d (CharData elem # dec) = (Some (ErrRange elem), d, dec)"
    by simp
next
  assume "2 ^ 16 \<le> decimal_value elem"
    and "target \<in> {''VersionMajor'', ''VersionMinor'', ''BuildMajor'', ''BuildMinor''}"
  moreover from assms \<open>2 ^ 16 \<le> decimal_value elem\<close>
  have "ParseUint elem 16 = Inl (ErrRange elem)"
    by (rule ParseUint_16)
  ultimately show "Version_loop se target v (CharData elem # dec) = (Some (ErrRange elem), v, dec)"
    by auto
next
  assume "Local name = ''Version''"
    and "Version_UnmarshalXML zero_Version dec name = (Some err, v', dec')"
  then show "Device_loop se target d (StartElement name attr # dec) = (Some err, d, dec')"
    by simp
qed

theorem UnmarshalXML_out_of_range_witness:
  "''4294967296'' \<noteq> [] \<and> list_all is_digit ''4294967296'' \<and>
   2 ^ 32 \<le> decimal_value ''4294967296'' \<and>
   Device_loop creator ''UnitId'' zero_Device [CharData ''4294967296'', EndElement creator] =
     (Some (ErrRange ''4294967296''), zero_Device, [EndElement creator]) \<and>
   Device_loop creator ''ProductID'' zero_Device [CharData ''4294967296'', EndElement creator] =
     (Some (ErrRange ''4294967296''), zero_Device, [EndElement creator]) \<and>
   Version_loop creator ''BuildMinor'' zero_Version [CharData ''4294967296'', EndElement creator] =
     (Some (ErrRange ''4294967296''), zero_Version, [EndElement creator]) \<and>
   Device_UnmarshalXML zero_Device
     [StartElement \<lparr>Space = [], Local = ''Version''\<rparr> [],
      StartElement \<lparr>Space = [], Local = ''VersionMajor''\<rparr> [],
      CharData ''4294967296'', EndElement creator] creator =
     (Some (ErrRange ''4294967296''), zero_Device, [EndElement creator])"
proof -
  have h1: "''4294967296'' \<noteq> []" and h2: "\<forall>c \<in> set ''4294967296''. is_digit c"
    by (simp_all add: is_digit_def)
  have h3: "2 ^ 32 \<le> decimal_value ''4294967296''"
    by (simp add: decimal_value_def digit_of_def)
  then have h4: "2 ^ 16 \<le> decimal_value ''4294967296''"
    by simp
  have h5: "list_all is_digit ''4294967296''"
    using h2 by (simp only: list_all_iff)
  note t = UnmarshalXML_out_of_range [OF h1 h2]
  have v: "Version_UnmarshalXML zero_Version
     [StartElement \<lparr>Space = [], Local = ''VersionMajor''\<rparr> [],
      CharData ''4294967296'', EndElement creator] \<lparr>Space = [], Local = ''Version''\<rparr> =
     (Some (ErrRange ''4294967296''), zero_Version, [EndElement creator])"
    using h4 t [where target = "''VersionMajor''" and v = zero_Version
        and se = "\<lparr>Space = [], Local = ''Version''\<rparr>" and dec = "[EndElement creator]"]
    by (simp add: Version_UnmarshalXML_def)
  have "Device_UnmarshalXML zero_Device
     [StartElement \<lparr>Space = [], Local = ''Version''\<rparr> [],
      StartElement \<lparr>Space = [], Local = ''VersionMajor''\<rparr> [],
      CharData ''4294967296'', EndElement creator] creator =
     (Some (ErrRange ''4294967296''), zero_Device, [EndElement creator])"
    using v t [where name = "\<lparr>Space = [], Local = ''Version''\<rparr>" and se = creator
        and target = "[]" and d = zero_Device and attr = "[]"]
    by (simp add: Device_UnmarshalXML_def)
  then show ?thesis
    using h1 h3 h4 h5
      t [where se = creator and d = zero_Device and dec = "[EndElement creator]"
        and target = "''BuildMinor''" and v = zero_Version]
    by blast
qed

end
